theory Spec2Isabelle
  imports Complex_Main "HOL-Library.Multiset"
begin

section \<open>Enumerations of the engine (types.ts)\<close>

datatype GameState = IDLE | READY | GRABBING | PREVIEW | CONFIRMED | DISINTEGRATING

datatype InputMode = HANDS | MOUSE

datatype Gesture = NONE | OPEN | PINCH | FIST | POINT

text \<open>
  A JavaScript \<^verbatim>\<open>TypeError\<close> (a property read on \<^verbatim>\<open>undefined\<close> or \<^verbatim>\<open>null\<close>, or
  \<^verbatim>\<open>reduce\<close> of an empty array without an initial value) is the only exception the
  modelled code can raise.
\<close>

datatype error = TypeError

section \<open>Gesture classifier: \<^verbatim>\<open>detectGestureRaw\<close>\<close>

text \<open>
  One landmark of the vision pipeline. Coordinates are JavaScript numbers; they are
  modelled as real numbers, and \<^verbatim>\<open>Math.hypot\<close> as the Euclidean norm.
\<close>

record landmark =
  px :: real
  py :: real
  pz :: real

definition PINCH_THRESHOLD :: real where
  "PINCH_THRESHOLD = 0.22"

text \<open>\<^verbatim>\<open>getDist(p1, p2) = Math.hypot(p1.x - p2.x, p1.y - p2.y)\<close>\<close>

definition getDist :: "landmark \<Rightarrow> landmark \<Rightarrow> real" where
  "getDist p1 p2 = sqrt ((px p1 - px p2)\<^sup>2 + (py p1 - py p2)\<^sup>2)"

text \<open>\<^verbatim>\<open>isFingerFolded(tip, mcp)\<close>; the second argument of \<^verbatim>\<open>getDist\<close> defaults to the wrist,
  \<^verbatim>\<open>landmarks[0]\<close>.\<close>

definition isFingerFolded :: "landmark list \<Rightarrow> nat \<Rightarrow> nat \<Rightarrow> bool" where
  "isFingerFolded landmarks tip mcp \<longleftrightarrow>
     getDist (landmarks ! tip) (landmarks ! 0) < getDist (landmarks ! mcp) (landmarks ! 0)"

text \<open>The \<^verbatim>\<open>filter\<close> over the four finger tips, and its \<^verbatim>\<open>length\<close>.\<close>

definition extendedFingers :: "landmark list \<Rightarrow> nat" where
  "extendedFingers landmarks =
     length (filter (\<lambda>tipIdx. let pipIdx = tipIdx - 2 in
                getDist (landmarks ! tipIdx) (landmarks ! 0)
                  > getDist (landmarks ! pipIdx) (landmarks ! 0) * 1.05)
             [8, 12, 16, 20])"

text \<open>
  The four \<^verbatim>\<open>isFingerFolded\<close> calls are evaluated before any branch, and the last of them
  reads \<^verbatim>\<open>landmarks[20].x\<close>: a frame with fewer than 21 landmarks raises a TypeError.
\<close>

definition detectGestureRaw :: "landmark list \<Rightarrow> error + Gesture" where
  "detectGestureRaw landmarks =
     (if length landmarks < 21 then Inl TypeError
      else
        let thumbTip = landmarks ! 4;
            indexTip = landmarks ! 8;
            middleFolded = isFingerFolded landmarks 12 9;
            ringFolded = isFingerFolded landmarks 16 13;
            pinkyFolded = isFingerFolded landmarks 20 17;
            indexFolded = isFingerFolded landmarks 8 5
        in
          if indexFolded \<and>
             (if middleFolded then 1 else 0) + (if ringFolded then 1 else 0)
               + (if pinkyFolded then 1 else 0) \<ge> (2::nat)
          then Inr FIST
          else
            let distPinch = getDist thumbTip indexTip in
            if distPinch < PINCH_THRESHOLD \<and> \<not> indexFolded then Inr PINCH
            else if extendedFingers landmarks \<ge> 3 then Inr OPEN
            else Inr NONE)"

subsection \<open>The classifier as the specification words it\<close>















section \<open>Safety placement resolver: \<^verbatim>\<open>resolveConfirmedSafety\<close>\<close>

text \<open>
  Vectors of the rendering library, with the two operations the resolver uses. Numbers
  are modelled as reals: the rounding of IEEE doubles is not part of the model.
\<close>

record vec3 =
  vx :: real
  vy :: real
  vz :: real

definition addScaledVector :: "vec3 \<Rightarrow> vec3 \<Rightarrow> real \<Rightarrow> vec3" where
  "addScaledVector p v k = \<lparr>vx = vx p + vx v * k, vy = vy p + vy v * k, vz = vz p + vz v * k\<rparr>"

definition distanceTo :: "vec3 \<Rightarrow> vec3 \<Rightarrow> real" where
  "distanceTo p q = sqrt ((vx p - vx q)\<^sup>2 + (vy p - vy q)\<^sup>2 + (vz p - vz q)\<^sup>2)"

text \<open>The fields of \<^verbatim>\<open>safetyConfig\<close> the resolver reads, and the near plane the constructor
  gives the camera (\<^verbatim>\<open>new THREE.PerspectiveCamera(70, aspect, 0.1, 1000)\<close>).\<close>

definition baseConfirmDistance :: real where "baseConfirmDistance = 8.5"
definition yOffset :: real where "yOffset = 0.2"
definition safetyMargin :: real where "safetyMargin = 4.5"
definition nearMargin :: real where "nearMargin = 0.8"
definition pushOutStep :: real where "pushOutStep = 0.1"
definition cameraNear :: real where "cameraNear = 0.1"

text \<open>The ring: the engine's fields \<^verbatim>\<open>ringRadius\<close> and \<^verbatim>\<open>ringCenterZ\<close> (12 and 22 in the
  source), kept as parameters.\<close>

record carousel =
  ringRadius :: real
  ringCenterZ :: real

definition checkIntersectionWithCarousel :: "carousel \<Rightarrow> vec3 \<Rightarrow> bool" where
  "checkIntersectionWithCarousel ring p =
     (let distFromCarouselPivot = distanceTo p \<lparr>vx = 0, vy = 0, vz = ringCenterZ ring\<rparr>;
          isNearArc = \<bar>distFromCarouselPivot - ringRadius ring\<bar> < safetyMargin;
          isNearHorizon = \<bar>vy p\<bar> < 2.0
      in isNearArc \<and> isNearHorizon)"

text \<open>The local variables of the resolver's loop (\<^verbatim>\<open>dist\<close> is written \<open>distv\<close>).\<close>

record resolver =
  distv :: real
  pos :: vec3
  pushCount :: nat
  intersected :: bool

text \<open>\<^verbatim>\<open>pos.copy(camera.position).addScaledVector(camForward, dist).addScaledVector(camUp, yOffset)\<close>\<close>

definition candidate :: "vec3 \<Rightarrow> vec3 \<Rightarrow> vec3 \<Rightarrow> real \<Rightarrow> vec3" where
  "candidate camPos camForward camUp d =
     addScaledVector (addScaledVector camPos camForward d) camUp yOffset"

text \<open>One pass through the body of the \<^verbatim>\<open>while\<close> loop.\<close>

definition loopBody :: "carousel \<Rightarrow> vec3 \<Rightarrow> vec3 \<Rightarrow> vec3 \<Rightarrow> resolver \<Rightarrow> resolver" where
  "loopBody ring camPos camForward camUp s =
     (let s1 = s\<lparr>pos := candidate camPos camForward camUp (distv s)\<rparr>;
          s2 = s1\<lparr>intersected := checkIntersectionWithCarousel ring (pos s1)\<rparr>;
          minSafeDist = cameraNear + nearMargin;
          s3 = (if distv s2 \<le> minSafeDist
                then s2\<lparr>distv := minSafeDist, intersected := False\<rparr> else s2)
      in if intersected s3
         then s3\<lparr>distv := distv s3 - pushOutStep, pushCount := pushCount s3 + 1\<rparr>
         else s3)"

definition loopCond :: "resolver \<Rightarrow> bool" where
  "loopCond s \<longleftrightarrow> intersected s \<and> pushCount s < 40"

function resolveLoop :: "carousel \<Rightarrow> vec3 \<Rightarrow> vec3 \<Rightarrow> vec3 \<Rightarrow> resolver \<Rightarrow> resolver" where
  "resolveLoop ring camPos camForward camUp s =
     (if loopCond s then resolveLoop ring camPos camForward camUp (loopBody ring camPos camForward camUp s)
      else s)"
  by pat_completeness auto
termination
  by (relation "measure (\<lambda>(ring, cp, cf, cu, s).
        (40 - pushCount s) + (if intersected s then 1 else 0))")
     (auto simp: loopBody_def loopCond_def Let_def)

declare resolveLoop.simps [simp del]

definition resolverStart :: resolver where
  "resolverStart = \<lparr>distv = baseConfirmDistance, pos = \<lparr>vx = 0, vy = 0, vz = 0\<rparr>,
                     pushCount = 0, intersected = True\<rparr>"

text \<open>
  The final values of the locals: \<^verbatim>\<open>pos\<close> is copied to \<^verbatim>\<open>targetPosition\<close>, and
  \<^verbatim>\<open>pushCount\<close>, \<^verbatim>\<open>intersected\<close> and \<^verbatim>\<open>dist\<close> to the debug record (\<^verbatim>\<open>dist\<close> as
  \<^verbatim>\<open>actualDist\<close>).
\<close>

definition resolveConfirmedSafety :: "carousel \<Rightarrow> vec3 \<Rightarrow> vec3 \<Rightarrow> vec3 \<Rightarrow> resolver" where
  "resolveConfirmedSafety ring camPos camForward camUp =
     resolveLoop ring camPos camForward camUp resolverStart"

text \<open>The states in which the loop condition is evaluated during a call.\<close>

inductive loopHead :: "carousel \<Rightarrow> vec3 \<Rightarrow> vec3 \<Rightarrow> vec3 \<Rightarrow> resolver \<Rightarrow> bool"
  for ring camPos camForward camUp where
  start: "loopHead ring camPos camForward camUp resolverStart"
| pass: "loopHead ring camPos camForward camUp s \<Longrightarrow> loopCond s \<Longrightarrow>
         loopHead ring camPos camForward camUp (loopBody ring camPos camForward camUp s)"

text \<open>The engine's ring, and the pose \<^verbatim>\<open>setupScene\<close> gives the camera: at (0, 0, 18),
  looking at the origin.\<close>

definition engineRing :: carousel where
  "engineRing = \<lparr>ringRadius = 12, ringCenterZ = 22\<rparr>"

definition sceneCamPos :: vec3 where "sceneCamPos = \<lparr>vx = 0, vy = 0, vz = 18\<rparr>"
definition sceneCamForward :: vec3 where "sceneCamForward = \<lparr>vx = 0, vy = 0, vz = -1\<rparr>"
definition sceneCamUp :: vec3 where "sceneCamUp = \<lparr>vx = 0, vy = 1, vz = 0\<rparr>"


section \<open>Cards and the deck (constants.ts)\<close>

text \<open>
  A card. The Chinese display name, the two meaning texts and the image URLs of
  \<^verbatim>\<open>TarotCardData\<close> are display data that no modelled operation reads; the record keeps the
  numeric identity (\<^verbatim>\<open>id\<close>, written \<open>card_id\<close>) and the English name.
\<close>

record TarotCardData =
  card_id :: nat
  name_en :: string

definition mkCard :: "nat \<Rightarrow> string \<Rightarrow> TarotCardData" where
  "mkCard i n = \<lparr>card_id = i, name_en = n\<rparr>"

definition TAROT_DECK :: "TarotCardData list" where
  "TAROT_DECK =
     [
      mkCard 0 ''The Fool'', mkCard 1 ''The Magician'', mkCard 2 ''The High Priestess'',
      mkCard 3 ''The Empress'', mkCard 4 ''The Emperor'', mkCard 5 ''The Hierophant'',
      mkCard 6 ''The Lovers'', mkCard 7 ''The Chariot'', mkCard 8 ''Strength'',
      mkCard 9 ''The Hermit'', mkCard 10 ''Wheel of Fortune'', mkCard 11 ''Justice'',
      mkCard 12 ''The Hanged Man'', mkCard 13 ''Death'', mkCard 14 ''Temperance'',
      mkCard 15 ''The Devil'', mkCard 16 ''The Tower'', mkCard 17 ''The Star'',
      mkCard 18 ''The Moon'', mkCard 19 ''The Sun'', mkCard 20 ''Judgement'',
      mkCard 21 ''The World'', mkCard 22 ''Ace of Wands'', mkCard 23 ''Two of Wands'',
      mkCard 35 ''Page of Wands'', mkCard 36 ''Ace of Cups'', mkCard 49 ''Page of Cups'',
      mkCard 50 ''Ace of Swords'', mkCard 63 ''Page of Swords'', mkCard 64 ''Ace of Pentacles'',
      mkCard 77 ''Page of Pentacles''
     ]"

text \<open>An entry of the history list (\<^verbatim>\<open>isReversed\<close> is written \<open>h_isReversed\<close>; the display
  name repeats the card's).\<close>

record CardHistory =
  h_isReversed :: bool
  timestamp :: int
  cardData :: TarotCardData

section \<open>The engine\<close>

text \<open>
  The fields of \<^verbatim>\<open>GameEngine\<close> that the gesture pipeline and the interaction state machine
  read or write. \<open>cardRing\<close> holds the card data carried by the ring's meshes, in order;
  \<open>currentCardMesh\<close> says whether the mesh of the active card exists. Times are
  milliseconds as \<^verbatim>\<open>Date.now()\<close> returns them.
\<close>

record engine =
  state :: GameState
  inputMode :: InputMode
  currentGesture :: Gesture
  gestureBuffer :: "Gesture list"
  gestureCooldown :: int
  pinchStartTime :: int
  fistStartTime :: int
  deck :: "TarotCardData list"
  history :: "CardHistory list"
  sessionDrawnCount :: nat
  isReversed :: bool
  activeCardData :: "TarotCardData option"
  cardRing :: "TarotCardData list"
  currentCardMesh :: bool

definition BUFFER_SIZE :: nat where "BUFFER_SIZE = 4"
definition PINCH_REQUIRED_HOLD :: int where "PINCH_REQUIRED_HOLD = 80"
definition FIST_REQUIRED_HOLD :: int where "FIST_REQUIRED_HOLD = 40"
definition MAX_DRAW_PER_SESSION :: nat where "MAX_DRAW_PER_SESSION = 3"

text \<open>
  What a handler reads from outside the engine while it runs: the clock, the card of the
  first ring mesh the pointer's ray intersects (if any), the outcome of
  \<^verbatim>\<open>Math.random() < 0.5\<close>, and the random draws of a shuffle.
\<close>

record inputs =
  now :: int
  hit :: "TarotCardData option"
  coin :: bool
  rolls :: "nat list"

text \<open>A handler either runs to its end or is cut short by an exception, which leaves the
  engine with the assignments made so far.\<close>

datatype outcome = Done engine | Threw error engine

text \<open>The calls a gesture update makes to \<^verbatim>\<open>onGestureEnter\<close> and \<^verbatim>\<open>onGestureHold\<close>, in order.\<close>

datatype notification = Enter Gesture | Hold Gesture

subsection \<open>Shuffle\<close>

text \<open>
  \<^verbatim>\<open>shuffleDeck\<close>: for \<open>i\<close> from the last index down to 1, swap positions \<open>i\<close> and
  \<open>j = Math.floor(Math.random() * (i + 1))\<close>. The draw \<open>j\<close> is an integer between 0 and
  \<open>i\<close>; the model takes it from the list of draws, reduced modulo \<open>i + 1\<close> (and 0 once
  the list is used up).
\<close>

fun shuffleLoop :: "nat \<Rightarrow> nat list \<Rightarrow> 'a list \<Rightarrow> 'a list" where
  "shuffleLoop 0 rs xs = xs"
| "shuffleLoop (Suc k) rs xs =
     (let i = Suc k;
          j = (case rs of [] \<Rightarrow> 0 | r # _ \<Rightarrow> r mod (i + 1))
      in shuffleLoop k (tl rs) (xs[i := xs ! j, j := xs ! i]))"

definition shuffleDeck :: "nat list \<Rightarrow> 'a list \<Rightarrow> 'a list" where
  "shuffleDeck rs xs = shuffleLoop (length xs - 1) rs xs"

subsection \<open>Gesture stabilizer\<close>

text \<open>\<^verbatim>\<open>gestureBuffer.push(rawGesture); if (gestureBuffer.length > BUFFER_SIZE) gestureBuffer.shift()\<close>\<close>

definition pushGesture :: "Gesture \<Rightarrow> Gesture list \<Rightarrow> Gesture list" where
  "pushGesture rawGesture buf =
     (let b = buf @ [rawGesture] in if length b > BUFFER_SIZE then tl b else b)"

text \<open>
  The object \<^verbatim>\<open>counts\<close>: its keys are kept in the order in which they were first
  assigned, which is the order \<^verbatim>\<open>Object.keys\<close> lists them in.
\<close>

fun bump :: "Gesture \<Rightarrow> (Gesture \<times> nat) list \<Rightarrow> (Gesture \<times> nat) list" where
  "bump g [] = [(g, 1)]"
| "bump g ((k, n) # acc) = (if k = g then (k, n + 1) # acc else (k, n) # bump g acc)"

definition gestureCounts :: "Gesture list \<Rightarrow> (Gesture \<times> nat) list" where
  "gestureCounts buf = foldl (\<lambda>acc g. bump g acc) [] buf"

definition countOf :: "(Gesture \<times> nat) list \<Rightarrow> Gesture \<Rightarrow> nat" where
  "countOf counts k = (case map_of counts k of Some n \<Rightarrow> n | None \<Rightarrow> 0)"

text \<open>\<^verbatim>\<open>Object.keys(counts).reduce((a, b) => counts[a] > counts[b] ? a : b)\<close>; \<^verbatim>\<open>reduce\<close> without
  a starting element raises on an empty array.\<close>

definition getStableGesture :: "Gesture list \<Rightarrow> error + Gesture" where
  "getStableGesture buf =
     (let counts = gestureCounts buf in
      case map fst counts of
        [] \<Rightarrow> Inl TypeError
      | k # ks \<Rightarrow> Inr (foldl (\<lambda>a b. if countOf counts a > countOf counts b then a else b) k ks))"

text \<open>The hold verification of \<^verbatim>\<open>handleGestureUpdate\<close>: the two timers and the result in
  \<^verbatim>\<open>processedGesture\<close>.\<close>

definition holdVerify :: "Gesture \<Rightarrow> int \<Rightarrow> engine \<Rightarrow> Gesture \<times> engine" where
  "holdVerify gesture t e =
     (let (p1, e1) =
            (if gesture = PINCH then
               let ea = (if pinchStartTime e = 0 then e\<lparr>pinchStartTime := t\<rparr> else e) in
               (if t - pinchStartTime ea < PINCH_REQUIRED_HOLD
                then (if currentGesture ea = PINCH then PINCH else NONE) else gesture, ea)
             else (gesture, e\<lparr>pinchStartTime := 0\<rparr>));
          (p2, e2) =
            (if gesture = FIST then
               let eb = (if fistStartTime e1 = 0 then e1\<lparr>fistStartTime := t\<rparr> else e1) in
               (if t - fistStartTime eb < FIST_REQUIRED_HOLD
                then (if currentGesture eb = FIST then FIST else NONE) else p1, eb)
             else (p1, e1\<lparr>fistStartTime := 0\<rparr>))
      in (p2, e2))"

subsection \<open>Interaction state machine\<close>

definition setState :: "GameState \<Rightarrow> engine \<Rightarrow> engine" where
  "setState s e = e\<lparr>state := s\<rparr>"

text \<open>\<^verbatim>\<open>createCardRing\<close> rebuilds the ring with one mesh per card of the deck.\<close>

definition createCardRing :: "engine \<Rightarrow> engine" where
  "createCardRing e = e\<lparr>cardRing := deck e\<rparr>"

definition tryGrab :: "inputs \<Rightarrow> engine \<Rightarrow> engine" where
  "tryGrab i e =
     (if sessionDrawnCount e \<ge> MAX_DRAW_PER_SESSION then e
      else case hit i of
        None \<Rightarrow> e
      | Some picked \<Rightarrow>
          let e1 = e\<lparr>activeCardData := Some picked\<rparr>;
              e2 = e1\<lparr>isReversed := coin i\<rparr>;
              e3 = e2\<lparr>deck := filter (\<lambda>c. card_id c \<noteq> card_id picked) (deck e2)\<rparr>;
              e4 = createCardRing e3;
              e5 = e4\<lparr>currentCardMesh := True\<rparr>
          in setState GRABBING e5)"

text \<open>\<^verbatim>\<open>confirmCard\<close>: the history entry reads \<^verbatim>\<open>this.activeCardData!.name_zh\<close>, which raises
  when there is no active card, after the counter and the state have been written.\<close>

definition confirmCard :: "inputs \<Rightarrow> engine \<Rightarrow> outcome" where
  "confirmCard i e =
     (let e1 = e\<lparr>sessionDrawnCount := sessionDrawnCount e + 1\<rparr>;
          e2 = setState CONFIRMED e1
      in case activeCardData e2 of
           None \<Rightarrow> Threw TypeError e2
         | Some active \<Rightarrow>
             Done (e2\<lparr>history := \<lparr>h_isReversed = isReversed e2, timestamp = now i,
                                    cardData = active\<rparr> # history e2\<rparr>))"

text \<open>\<^verbatim>\<open>triggerDisintegrate\<close>; the callback it schedules is \<open>disintegrateTimeout\<close>.\<close>

definition triggerDisintegrate :: "engine \<Rightarrow> engine" where
  "triggerDisintegrate e =
     (if state e \<noteq> CONFIRMED then e
      else (setState DISINTEGRATING e)\<lparr>currentCardMesh := False\<rparr>)"

definition disintegrateTimeout :: "engine \<Rightarrow> engine" where
  "disintegrateTimeout e = setState READY e"

definition resetDeck :: "inputs \<Rightarrow> engine \<Rightarrow> engine" where
  "resetDeck i e =
     (let e1 = e\<lparr>deck := TAROT_DECK\<rparr>;
          e2 = e1\<lparr>deck := shuffleDeck (rolls i) (deck e1)\<rparr>;
          e3 = e2\<lparr>history := []\<rparr>;
          e4 = e3\<lparr>sessionDrawnCount := 0\<rparr>;
          e5 = createCardRing e4;
          e6 = e5\<lparr>currentCardMesh := False\<rparr>
      in setState READY e6)"

definition onGestureEnter :: "Gesture \<Rightarrow> inputs \<Rightarrow> engine \<Rightarrow> outcome" where
  "onGestureEnter gesture i e =
     (if gesture = PINCH \<and> state e = READY then Done (tryGrab i e)
      else if gesture = FIST then
        (if state e = PREVIEW then confirmCard i e
         else if state e = CONFIRMED then Done (triggerDisintegrate e)
         else if state e = READY \<and> sessionDrawnCount e \<ge> MAX_DRAW_PER_SESSION
           then Done (resetDeck i e)
         else Done e)
      else Done e)"

text \<open>
  \<^verbatim>\<open>handleGestureUpdate\<close>. \<^verbatim>\<open>onGestureHold\<close> only moves the target position of the card and
  \<^verbatim>\<open>updateUIBadges\<close> only writes to the page; the call of the former is recorded in the
  list of notifications.
\<close>

definition handleGestureUpdate :: "Gesture \<Rightarrow> inputs \<Rightarrow> engine \<Rightarrow> engine \<times> notification list" where
  "handleGestureUpdate gesture i e =
     (let (processedGesture, e1) = holdVerify gesture (now i) e in
      if currentGesture e1 \<noteq> processedGesture \<and> now i > gestureCooldown e1
      then (case onGestureEnter processedGesture i (e1\<lparr>currentGesture := processedGesture\<rparr>) of
              Threw err e2 \<Rightarrow> (e2, [Enter processedGesture])
            | Done e2 \<Rightarrow>
                let e3 = e2\<lparr>gestureCooldown := now i + 50\<rparr>
                in (e3, [Enter processedGesture, Hold (currentGesture e3)]))
      else (e1, [Hold (currentGesture e1)]))"

text \<open>\<^verbatim>\<open>processHandResults\<close>, given \<^verbatim>\<open>results.multiHandLandmarks\<close> (empty when no hand is
  seen). The pointer position and the ring velocity it also updates are not modelled.\<close>

definition processHandResults ::
  "landmark list list \<Rightarrow> inputs \<Rightarrow> engine \<Rightarrow> engine \<times> notification list" where
  "processHandResults multiHandLandmarks i e =
     (if inputMode e \<noteq> HANDS then (e, [])
      else case multiHandLandmarks of
        [] \<Rightarrow> handleGestureUpdate NONE i e
      | landmarks # _ \<Rightarrow>
          (case detectGestureRaw landmarks of
             Inl err \<Rightarrow> (e, [])
           | Inr rawGesture \<Rightarrow>
               let e1 = e\<lparr>gestureBuffer := pushGesture rawGesture (gestureBuffer e)\<rparr> in
               (case getStableGesture (gestureBuffer e1) of
                  Inl err \<Rightarrow> (e1, [])
                | Inr stableGesture \<Rightarrow> handleGestureUpdate stableGesture i e1)))"

text \<open>The \<^verbatim>\<open>mousedown\<close> listener; \<open>onCard\<close> says whether the pointer's ray intersects the
  mesh of the current card.\<close>

definition mouseDown :: "nat \<Rightarrow> bool \<Rightarrow> inputs \<Rightarrow> engine \<Rightarrow> engine \<times> notification list" where
  "mouseDown button onCard i e =
     (if inputMode e \<noteq> MOUSE then (e, [])
      else if button = 0 then
        (if (state e = CONFIRMED \<or> state e = PREVIEW) \<and> \<not> currentCardMesh e then (e, [])
         else if (state e = CONFIRMED \<or> state e = PREVIEW) \<and> onCard then (e, [])
         else handleGestureUpdate PINCH i e)
      else if button = 2 then handleGestureUpdate FIST i e
      else (e, []))"

definition mouseUp :: "inputs \<Rightarrow> engine \<Rightarrow> engine \<times> notification list" where
  "mouseUp i e = (if inputMode e = MOUSE then handleGestureUpdate NONE i e else (e, []))"

text \<open>\<^verbatim>\<open>updateCardTransform\<close>, called on every animation frame: \<open>nearAnchor\<close> says whether
  the card's mesh is within 3.5 of the preview anchor.\<close>

definition updateCardTransform :: "bool \<Rightarrow> engine \<Rightarrow> engine" where
  "updateCardTransform nearAnchor e =
     (if \<not> currentCardMesh e then e
      else if state e = GRABBING \<and> nearAnchor then setState PREVIEW e
      else e)"

text \<open>Everything that can happen to the engine after \<^verbatim>\<open>init\<close>.\<close>

datatype event =
    HandResults "landmark list list" inputs
  | MouseDown nat bool inputs
  | MouseUp inputs
  | AnimationFrame bool
  | DisintegrateTimeout
  | ResetDeckCall inputs
  | SelectMode InputMode

fun step :: "event \<Rightarrow> engine \<Rightarrow> engine \<times> notification list" where
  "step (HandResults hs i) e = processHandResults hs i e"
| "step (MouseDown b c i) e = mouseDown b c i e"
| "step (MouseUp i) e = mouseUp i e"
| "step (AnimationFrame nearAnchor) e = (updateCardTransform nearAnchor e, [])"
| "step DisintegrateTimeout e = (disintegrateTimeout e, [])"
| "step (ResetDeckCall i) e = (resetDeck i e, [])"
| "step (SelectMode m) e = (e\<lparr>inputMode := m\<rparr>, [])"

fun run :: "event list \<Rightarrow> engine \<Rightarrow> engine" where
  "run [] e = e"
| "run (ev # evs) e = run evs (fst (step ev e))"

text \<open>The engine as its field initialisers leave it, and after \<^verbatim>\<open>init\<close> (shuffle, ring,
  state READY).\<close>

definition newEngine :: engine where
  "newEngine =
     \<lparr>state = IDLE, inputMode = HANDS, currentGesture = NONE, gestureBuffer = [],
      gestureCooldown = 0, pinchStartTime = 0, fistStartTime = 0, deck = TAROT_DECK,
      history = [], sessionDrawnCount = 0, isReversed = False, activeCardData = None,
      cardRing = [], currentCardMesh = False\<rparr>"

definition init :: "nat list \<Rightarrow> engine" where
  "init rs = setState READY (createCardRing (newEngine\<lparr>deck := shuffleDeck rs (deck newEngine)\<rparr>))"

subsection \<open>Order of first appearance\<close>

text \<open>The labels of a buffer in the order in which they first appear, and the position
  of a label's first appearance: the order of the keys of \<^verbatim>\<open>counts\<close>.\<close>

fun firstSeen :: "'a list \<Rightarrow> 'a list" where
  "firstSeen [] = []"
| "firstSeen (x # xs) = x # filter (\<lambda>y. y \<noteq> x) (firstSeen xs)"

definition firstIndex :: "'a list \<Rightarrow> 'a \<Rightarrow> nat" where
  "firstIndex xs h = length (takeWhile (\<lambda>x. x \<noteq> h) xs)"

subsection \<open>Streams of gesture updates\<close>


text \<open>The start of the hold that a PINCH (a FIST) arriving at time \<open>t\<close> is measured from.\<close>

definition pinchHoldStart :: "int \<Rightarrow> engine \<Rightarrow> int" where
  "pinchHoldStart t e = (if pinchStartTime e = 0 then t else pinchStartTime e)"

definition fistHoldStart :: "int \<Rightarrow> engine \<Rightarrow> int" where
  "fistHoldStart t e = (if fistStartTime e = 0 then t else fistStartTime e)"


text \<open>Inputs of a handler that runs at time \<open>t\<close> with the pointer off the ring.\<close>

definition atTime :: "int \<Rightarrow> inputs" where
  "atTime t = \<lparr>now = t, hit = None, coin = False, rolls = []\<rparr>"

subsection \<open>Runs, and what is observed of them\<close>

text \<open>What the counting of draws relies on: the quota is respected, and a card being
  dragged or previewed was grabbed below the quota.\<close>

definition sessionInv :: "engine \<Rightarrow> bool" where
  "sessionInv e \<longleftrightarrow>
     sessionDrawnCount e \<le> MAX_DRAW_PER_SESSION
     \<and> (state e = GRABBING \<or> state e = PREVIEW \<longrightarrow>
          sessionDrawnCount e < MAX_DRAW_PER_SESSION \<and> activeCardData e \<noteq> None)"

text \<open>The engine as a reset leaves the session: nothing drawn, no history, the whole
  deck (in some order) on the ring, state READY.\<close>

definition freshSession :: "engine \<Rightarrow> bool" where
  "freshSession e \<longleftrightarrow>
     sessionDrawnCount e = 0 \<and> history e = [] \<and> state e = READY
     \<and> mset (deck e) = mset TAROT_DECK \<and> cardRing e = deck e"

text \<open>The gestures of the enter notifications in a list.\<close>

fun enters :: "notification list \<Rightarrow> Gesture list" where
  "enters [] = []"
| "enters (Enter g # ns) = g # enters ns"
| "enters (Hold g # ns) = enters ns"

text \<open>The clock reading of the handler an event runs (0 for events that read no clock).\<close>

fun eventTime :: "event \<Rightarrow> int" where
  "eventTime (HandResults hs i) = now i"
| "eventTime (MouseDown b c i) = now i"
| "eventTime (MouseUp i) = now i"
| "eventTime (ResetDeckCall i) = now i"
| "eventTime ev = 0"

text \<open>The times of the events of a run at which the current gesture changed.\<close>

fun changeTimes :: "event list \<Rightarrow> engine \<Rightarrow> int list" where
  "changeTimes [] e = []"
| "changeTimes (ev # evs) e =
     (if currentGesture (fst (step ev e)) \<noteq> currentGesture e then [eventTime ev] else [])
       @ changeTimes evs (fst (step ev e))"


text \<open>In mouse mode: two presses of the right button 40 ms apart.\<close>

definition fistClicks :: "event list" where
  "fistClicks = [SelectMode MOUSE, MouseDown 2 False (atTime 1000), MouseDown 2 False (atTime 1040)]"

subsection \<open>Cards in the deck and in the history\<close>

definition deckIds :: "engine \<Rightarrow> nat list" where
  "deckIds e = map card_id (deck e)"

definition historyIds :: "engine \<Rightarrow> nat list" where
  "historyIds e = map (\<lambda>h. card_id (cardData h)) (history e)"

text \<open>What the bookkeeping of cards relies on: the ring shows the deck; no identity occurs
  twice in the deck or twice in the history, or in both; one history entry per counted
  draw; and a card being dragged or previewed is in neither.\<close>

definition deckInv :: "engine \<Rightarrow> bool" where
  "deckInv e \<longleftrightarrow>
     cardRing e = deck e
     \<and> distinct (deckIds e) \<and> distinct (historyIds e)
     \<and> set (deckIds e) \<inter> set (historyIds e) = {}
     \<and> set (deck e) \<subseteq> set TAROT_DECK
     \<and> length (history e) = sessionDrawnCount e
     \<and> (state e = GRABBING \<or> state e = PREVIEW \<longrightarrow>
          (case activeCardData e of
             None \<Rightarrow> False
           | Some c \<Rightarrow> card_id c \<notin> set (deckIds e) \<and> card_id c \<notin> set (historyIds e)))"

text \<open>The ray cast of a handler can only hit a mesh of the ring as it is then.\<close>

fun eventInputs :: "event \<Rightarrow> inputs option" where
  "eventInputs (HandResults hs i) = Some i"
| "eventInputs (MouseDown b c i) = Some i"
| "eventInputs (MouseUp i) = Some i"
| "eventInputs (ResetDeckCall i) = Some i"
| "eventInputs ev = None"

definition hitOnRing :: "inputs \<Rightarrow> engine \<Rightarrow> bool" where
  "hitOnRing i e = (case hit i of None \<Rightarrow> True | Some c \<Rightarrow> c \<in> set (cardRing e))"

definition admissible :: "event \<Rightarrow> engine \<Rightarrow> bool" where
  "admissible ev e = (case eventInputs ev of None \<Rightarrow> True | Some i \<Rightarrow> hitOnRing i e)"

inductive reachable :: "engine \<Rightarrow> bool" where
  initial: "reachable (init rs)"
| after: "reachable e \<Longrightarrow> admissible ev e \<Longrightarrow> reachable (fst (step ev e))"

text \<open>The engine after \<^verbatim>\<open>onGestureEnter\<close>, whether it returned or was cut short.\<close>

definition afterEnter :: "Gesture \<Rightarrow> inputs \<Rightarrow> engine \<Rightarrow> engine" where
  "afterEnter g i e = (case onGestureEnter g i e of Done e' \<Rightarrow> e' | Threw err e' \<Rightarrow> e')"

text \<open>
  One draw: a PINCH enter (the grab), the card reaching the preview anchor, a FIST enter
  (the confirmation); and its dismissal: a FIST enter on the confirmed card and the
  timeout that follows. A session of draws is a list of input triples, one per draw.
\<close>

definition drawAndConfirm :: "inputs \<Rightarrow> inputs \<Rightarrow> engine \<Rightarrow> engine" where
  "drawAndConfirm i j e = afterEnter FIST j (updateCardTransform True (afterEnter PINCH i e))"

definition dismiss :: "inputs \<Rightarrow> engine \<Rightarrow> engine" where
  "dismiss k e = disintegrateTimeout (afterEnter FIST k e)"

fun draws :: "(inputs \<times> inputs \<times> inputs) list \<Rightarrow> engine \<Rightarrow> engine" where
  "draws [] e = e"
| "draws ((i, j, k) # cycles) e = draws cycles (dismiss k (drawAndConfirm i j e))"

text \<open>Every grab of the session hits a card of the ring as it is at that moment.\<close>

fun hitsOnRing :: "(inputs \<times> inputs \<times> inputs) list \<Rightarrow> engine \<Rightarrow> bool" where
  "hitsOnRing [] e = True"
| "hitsOnRing ((i, j, k) # cycles) e =
     (hit i \<noteq> None \<and> hitOnRing i e \<and> hitsOnRing cycles (dismiss k (drawAndConfirm i j e)))"

text \<open>Inputs of a handler at time \<open>t\<close> whose ray hits the ring mesh of card \<open>c\<close>.\<close>

definition grabAt :: "int \<Rightarrow> TarotCardData \<Rightarrow> bool \<Rightarrow> inputs" where
  "grabAt t c r = \<lparr>now = t, hit = Some c, coin = r, rolls = []\<rparr>"

definition demoCycles :: "(inputs \<times> inputs \<times> inputs) list" where
  "demoCycles =
     [(grabAt 1000 (mkCard 0 ''The Fool'') False, atTime 2000, atTime 3000),
      (grabAt 6000 (mkCard 13 ''Death'') True, atTime 7000, atTime 8000),
      (grabAt 11000 (mkCard 77 ''Page of Pentacles'') False, atTime 12000, atTime 13000)]"

section \<open>Properties of the classifier\<close>












text \<open>
  Claim C10: whatever the frame, the classifier answers FIST, PINCH, OPEN or NONE (or
  raises on a frame that is too short); it never answers POINT.
\<close>

theorem C10_never_point:
  "detectGestureRaw fr \<in> {Inl TypeError, Inr FIST, Inr PINCH, Inr OPEN, Inr NONE}
   \<and> detectGestureRaw fr \<noteq> Inr POINT"
  by (simp add: detectGestureRaw_def Let_def)

section \<open>Properties of the resolver\<close>

lemma loopHead_inv:
  "loopHead ring cp cf cu s \<Longrightarrow>
     pushCount s \<le> 40 \<and> distv s = 17 / 2 - real (pushCount s) / 10
     \<and> (intersected s \<longrightarrow> 0 < pushCount s \<longrightarrow> pos s = candidate cp cf cu (distv s + 1 / 10))"
proof (induction rule: loopHead.induct)
  case start
  show ?case by (simp add: resolverStart_def baseConfirmDistance_def)
next
  case (pass s)
  then show ?case
    by (auto simp: loopBody_def loopCond_def Let_def cameraNear_def nearMargin_def
        pushOutStep_def field_simps)
qed

lemma loopHead_resolveLoop:
  "loopHead ring cp cf cu s \<Longrightarrow>
     loopHead ring cp cf cu (resolveLoop ring cp cf cu s) \<and> \<not> loopCond (resolveLoop ring cp cf cu s)"
proof (induction ring cp cf cu s rule: resolveLoop.induct)
  case (1 ring cp cf cu s)
  show ?case
  proof (cases "loopCond s")
    case True
    then have "loopHead ring cp cf cu (loopBody ring cp cf cu s)"
      using "1.prems" by (rule loopHead.pass[rotated])
    from "1.IH"[OF True this] show ?thesis
      using True by (simp add: resolveLoop.simps[of ring cp cf cu s])
  next
    case False
    then show ?thesis using "1.prems" by (simp add: resolveLoop.simps[of ring cp cf cu s])
  qed
qed

lemma result_facts:
  "loopHead ring cp cf cu (resolveConfirmedSafety ring cp cf cu)"
  "\<not> loopCond (resolveConfirmedSafety ring cp cf cu)"
  using loopHead_resolveLoop[OF loopHead.start, of ring cp cf cu]
  by (simp_all add: resolveConfirmedSafety_def)

text \<open>
  Claim C2: for every ring, camera position, forward axis and up axis the resolver returns
  (its loop is a total function, by the termination proof of \<open>resolveLoop\<close>), the
  distance it reports is at least the near plane plus the near margin, and the push
  count is at most 40. If the result is still flagged as intersecting, the cap of 40 was
  used up: the resolver then reports distance 4.5 and leaves the card at the last
  candidate it tested, at distance 4.6; it does not fail.
\<close>

theorem C2_resolver_bounds:
  "cameraNear + nearMargin \<le> distv (resolveConfirmedSafety ring cp cf cu)
   \<and> pushCount (resolveConfirmedSafety ring cp cf cu) \<le> 40
   \<and> (intersected (resolveConfirmedSafety ring cp cf cu) \<longrightarrow>
        pushCount (resolveConfirmedSafety ring cp cf cu) = 40
        \<and> distv (resolveConfirmedSafety ring cp cf cu) = 4.5
        \<and> pos (resolveConfirmedSafety ring cp cf cu) = candidate cp cf cu 4.6)"
proof -
  let ?r = "resolveConfirmedSafety ring cp cf cu"
  note inv = loopHead_inv[OF result_facts(1), of ring cp cf cu]
  have n: "pushCount ?r \<le> 40" using inv by simp
  have d: "distv ?r = 17 / 2 - real (pushCount ?r) / 10" using inv by simp
  have lo: "cameraNear + nearMargin \<le> distv ?r"
    using n d by (simp add: cameraNear_def nearMargin_def)
  have cap: "pushCount ?r = 40" if "intersected ?r"
    using that result_facts(2)[of ring cp cf cu] n by (simp add: loopCond_def)
  have dd: "distv ?r = 4.5" if i: "intersected ?r"
    using cap[OF i] d by simp
  have pp: "pos ?r = candidate cp cf cu 4.6" if i: "intersected ?r"
  proof -
    have "pos ?r = candidate cp cf cu (distv ?r + 1 / 10)"
      using inv i cap[OF i] by simp
    also have "distv ?r + 1 / 10 = 4.6" using dd[OF i] by simp
    finally show ?thesis .
  qed
  from lo n cap dd pp show ?thesis by blast
qed


lemma loopHead_above_floor:
  "loopHead ring cp cf cu s \<Longrightarrow> 9 / 2 \<le> distv s"
  using loopHead_inv[of ring cp cf cu s] by simp

text \<open>
  Claim C9: with the configured constants the reported distance is at least
  8.5 - 40 * 0.1 = 4.5, above the floor 0.1 + 0.8 = 0.9; and in every state in which the
  loop runs the distance is above the floor, so the test \<^verbatim>\<open>dist <= minSafeDist\<close> of the
  clamping branch never succeeds.
\<close>

theorem C9_floor_branch_unreachable:
  "baseConfirmDistance - 40 * pushOutStep \<le> distv (resolveConfirmedSafety ring cp cf cu)
   \<and> baseConfirmDistance - 40 * pushOutStep = 4.5
   \<and> cameraNear + nearMargin = 0.9
   \<and> (\<forall>s. loopHead ring cp cf cu s \<longrightarrow> \<not> distv s \<le> cameraNear + nearMargin)"
proof -
  have "9 / 2 \<le> distv (resolveConfirmedSafety ring cp cf cu)"
    using result_facts(1) by (rule loopHead_above_floor)
  moreover have "\<not> distv s \<le> cameraNear + nearMargin" if "loopHead ring cp cf cu s" for s
    using loopHead_above_floor[OF that] by (simp add: cameraNear_def nearMargin_def)
  ultimately show ?thesis
    by (simp add: baseConfirmDistance_def pushOutStep_def cameraNear_def nearMargin_def)
qed

theorem C9_floor_branch_unreachable_witness:
  "loopHead engineRing sceneCamPos sceneCamForward sceneCamUp resolverStart
   \<and> \<not> distv resolverStart \<le> cameraNear + nearMargin"
  using C9_floor_branch_unreachable [of engineRing sceneCamPos sceneCamForward sceneCamUp]
    loopHead.start [of engineRing sceneCamPos sceneCamForward sceneCamUp]
  by blast

lemma scene_candidate:
  "candidate sceneCamPos sceneCamForward sceneCamUp d = \<lparr>vx = 0, vy = 1 / 5, vz = 18 - d\<rparr>"
  by (simp add: candidate_def addScaledVector_def sceneCamPos_def sceneCamForward_def
      sceneCamUp_def yOffset_def)

lemma scene_unsafe:
  assumes "9 / 2 \<le> d" "d \<le> 17 / 2"
  shows "checkIntersectionWithCarousel engineRing (candidate sceneCamPos sceneCamForward sceneCamUp d)"
proof -
  let ?q = "(1 / 5)\<^sup>2 + (d + 4)\<^sup>2"
  have lo: "(15 / 2)\<^sup>2 < ?q"
  proof -
    have "(17 / 2 :: real)\<^sup>2 \<le> (d + 4)\<^sup>2" using assms by (intro power_mono) auto
    then show ?thesis by (simp add: power2_eq_square)
  qed
  have hi: "?q < (33 / 2)\<^sup>2"
  proof -
    have "(d + 4)\<^sup>2 \<le> (25 / 2 :: real)\<^sup>2" using assms by (intro power_mono) auto
    then show ?thesis by (simp add: power2_eq_square)
  qed
  have "sqrt ((15 / 2)\<^sup>2) < sqrt ?q" using lo by (simp only: real_sqrt_less_iff)
  then have l: "15 / 2 < sqrt ?q" by simp
  have "sqrt ?q < sqrt ((33 / 2)\<^sup>2)" using hi by (simp only: real_sqrt_less_iff)
  then have h: "sqrt ?q < 33 / 2" by simp
  have eq: "distanceTo \<lparr>vx = 0, vy = 1 / 5, vz = 18 - d\<rparr> \<lparr>vx = 0, vy = 0, vz = 22\<rparr> = sqrt ?q"
  proof -
    have "(18 - d - 22)\<^sup>2 = (d + 4)\<^sup>2" by (simp add: power2_eq_square algebra_simps)
    then show ?thesis by (simp add: distanceTo_def)
  qed
  have arc: "\<bar>sqrt ?q - 12\<bar> < 9 / 2" using l h by linarith
  have "\<bar>distanceTo \<lparr>vx = 0, vy = 1 / 5, vz = 18 - d\<rparr> \<lparr>vx = 0, vy = 0, vz = 22\<rparr> - 12\<bar>
          < safetyMargin"
    unfolding eq safetyMargin_def using arc by simp
  then show ?thesis
    by (simp add: checkIntersectionWithCarousel_def scene_candidate engineRing_def Let_def)
qed

lemma scene_loopHead_intersected:
  "loopHead engineRing sceneCamPos sceneCamForward sceneCamUp s \<Longrightarrow> intersected s"
proof (induction rule: loopHead.induct)
  case start
  show ?case by (simp add: resolverStart_def)
next
  case (pass s)
  have inv: "pushCount s \<le> 40" "distv s = 17 / 2 - real (pushCount s) / 10"
    using loopHead_inv[OF pass.hyps(1)] by simp_all
  have lt: "pushCount s < 40" using pass.hyps(2) by (simp add: loopCond_def)
  have "9 / 2 \<le> distv s" "distv s \<le> 17 / 2" using inv lt by simp_all
  from scene_unsafe[OF this] have "checkIntersectionWithCarousel engineRing
      (candidate sceneCamPos sceneCamForward sceneCamUp (distv s))" .
  moreover have "\<not> distv s \<le> cameraNear + nearMargin"
    using \<open>9 / 2 \<le> distv s\<close> by (simp add: cameraNear_def nearMargin_def)
  ultimately show ?case
    by (simp add: loopBody_def Let_def)
qed

text \<open>With the engine's ring and the camera where \<^verbatim>\<open>setupScene\<close> puts it, every candidate
  intersects, and the resolver ends flagged after 40 pushes.\<close>

theorem C2_resolver_bounds_witness:
  "intersected (resolveConfirmedSafety engineRing sceneCamPos sceneCamForward sceneCamUp)
   \<and> pushCount (resolveConfirmedSafety engineRing sceneCamPos sceneCamForward sceneCamUp) = 40
   \<and> distv (resolveConfirmedSafety engineRing sceneCamPos sceneCamForward sceneCamUp) = 4.5
   \<and> pos (resolveConfirmedSafety engineRing sceneCamPos sceneCamForward sceneCamUp)
       = \<lparr>vx = 0, vy = 0.2, vz = 13.4\<rparr>"
  using C2_resolver_bounds [of engineRing sceneCamPos sceneCamForward sceneCamUp]
    scene_loopHead_intersected [OF result_facts(1)]
  by (simp add: scene_candidate)

section \<open>Properties of the stabilizer's buffer\<close>

lemma pushGesture_length: "length buf \<le> 4 \<Longrightarrow> length (pushGesture g buf) \<le> 4"
  by (simp add: pushGesture_def BUFFER_SIZE_def Let_def)

lemma pushGesture_drop:
  "length buf \<le> 4 \<Longrightarrow> pushGesture g buf = drop (length (buf @ [g]) - 4) (buf @ [g])"
proof (cases "length buf = 4")
  case True
  have "drop (Suc 0) (buf @ [g]) = tl (buf @ [g])" by (simp only: drop_Suc drop_0)
  moreover have "length (buf @ [g]) - 4 = Suc 0" using True by simp
  moreover have "pushGesture g buf = tl (buf @ [g])"
    using True by (simp add: pushGesture_def BUFFER_SIZE_def Let_def)
  ultimately show ?thesis by (simp only:)
next
  case False
  assume "length buf \<le> 4"
  with False show ?thesis by (simp add: pushGesture_def BUFFER_SIZE_def Let_def)
qed

lemma push_all:
  "foldl (\<lambda>b g. pushGesture g b) [] gs = drop (length gs - 4) gs"
proof (induction gs rule: rev_induct)
  case Nil
  show ?case by simp
next
  case (snoc g gs)
  have len: "length (drop (length gs - 4) gs) \<le> 4" by simp
  have "foldl (\<lambda>b g. pushGesture g b) [] (gs @ [g]) = pushGesture g (drop (length gs - 4) gs)"
    using snoc.IH by simp
  also have "\<dots> = drop (length (drop (length gs - 4) gs @ [g]) - 4) (drop (length gs - 4) gs @ [g])"
    using len by (rule pushGesture_drop)
  also have "\<dots> = drop (length (gs @ [g]) - 4) (gs @ [g])"
  proof (cases "length gs \<le> 4")
    case True
    then show ?thesis by simp
  next
    case False
    then have "Suc (length gs - 4) = length gs - 3" by arith
    with False show ?thesis by (simp add: min_def)
  qed
  finally show ?case .
qed

lemma countOf_bump: "countOf (bump g acc) k = (if k = g then countOf acc k + 1 else countOf acc k)"
  by (induction acc) (auto simp: countOf_def)

lemma keys_bump:
  "map fst (bump g acc) = (if g \<in> set (map fst acc) then map fst acc else map fst acc @ [g])"
  by (induction acc) force+

lemma countOf_fold:
  "countOf (foldl (\<lambda>acc g. bump g acc) acc buf) k = countOf acc k + count_list buf k"
  by (induction buf arbitrary: acc) (auto simp: countOf_bump)

lemma keys_fold:
  "map fst (foldl (\<lambda>acc g. bump g acc) acc buf)
     = map fst acc @ filter (\<lambda>y. y \<notin> set (map fst acc)) (firstSeen buf)"
proof (induction buf arbitrary: acc)
  case Nil
  show ?case by simp
next
  case (Cons x xs)
  show ?case
  proof (cases "x \<in> set (map fst acc)")
    case True
    have "filter (\<lambda>y. y \<notin> set (map fst acc)) (filter (\<lambda>y. y \<noteq> x) (firstSeen xs))
            = filter (\<lambda>y. y \<notin> set (map fst acc)) (firstSeen xs)"
      using True by (auto intro: filter_cong)
    then show ?thesis using True by (simp add: Cons.IH keys_bump)
  next
    case False
    have "filter (\<lambda>y. y \<notin> set (map fst acc @ [x])) (firstSeen xs)
            = filter (\<lambda>y. y \<notin> set (map fst acc)) (filter (\<lambda>y. y \<noteq> x) (firstSeen xs))"
      by (auto intro: filter_cong)
    then show ?thesis using False by (simp add: Cons.IH keys_bump)
  qed
qed

lemma countOf_gestureCounts: "countOf (gestureCounts buf) k = count_list buf k"
proof -
  have "countOf [] k = 0" by (simp add: countOf_def)
  then show ?thesis by (simp add: gestureCounts_def countOf_fold)
qed

lemma keys_gestureCounts: "map fst (gestureCounts buf) = firstSeen buf"
  by (simp add: gestureCounts_def keys_fold)

lemma set_firstSeen: "set (firstSeen xs) = set xs"
  by (induction xs) auto

lemma firstIndex_Cons:
  "firstIndex (x # xs) h = (if h = x then 0 else Suc (firstIndex xs h))"
  by (simp add: firstIndex_def)

lemma firstSeen_sorted:
  "sorted_wrt (\<lambda>a b. firstIndex xs a < firstIndex xs b) (firstSeen xs)"
proof (induction xs)
  case Nil
  show ?case by simp
next
  case (Cons x xs)
  have "sorted_wrt (\<lambda>a b. firstIndex xs a < firstIndex xs b) (filter (\<lambda>y. y \<noteq> x) (firstSeen xs))"
    using Cons.IH by (rule sorted_wrt_filter)
  then have "sorted_wrt (\<lambda>a b. firstIndex (x # xs) a < firstIndex (x # xs) b)
               (filter (\<lambda>y. y \<noteq> x) (firstSeen xs))"
    by (rule sorted_wrt_mono_rel[rotated]) (auto simp: firstIndex_Cons)
  then show ?case by (auto simp: firstIndex_Cons)
qed

lemma reduce_last_max:
  fixes c :: "'a \<Rightarrow> nat"
  shows "\<exists>pre post. k # ks = pre @ foldl (\<lambda>a b. if c a > c b then a else b) k ks # post
           \<and> (\<forall>x \<in> set pre. c x \<le> c (foldl (\<lambda>a b. if c a > c b then a else b) k ks))
           \<and> (\<forall>x \<in> set post. c x < c (foldl (\<lambda>a b. if c a > c b then a else b) k ks))"
proof (induction ks rule: rev_induct)
  case Nil
  show ?case by (intro exI[of _ "[]"]) simp
next
  case (snoc x ks)
  let ?f = "\<lambda>a b. if c a > c b then a else b"
  let ?r = "foldl ?f k ks"
  from snoc obtain pre post where d: "k # ks = pre @ ?r # post"
    and lo: "\<forall>x \<in> set pre. c x \<le> c ?r" and hi: "\<forall>x \<in> set post. c x < c ?r" by blast
  show ?case
  proof (cases "c ?r > c x")
    case True
    then have r: "foldl ?f k (ks @ [x]) = ?r" by simp
    have "k # ks @ [x] = pre @ ?r # (post @ [x])" using d by simp
    moreover have "\<forall>y \<in> set (post @ [x]). c y < c ?r" using hi True by auto
    ultimately show ?thesis unfolding r using lo by blast
  next
    case False
    then have r: "foldl ?f k (ks @ [x]) = x" by simp
    have "k # ks @ [x] = (k # ks) @ x # []" by simp
    moreover have "\<forall>y \<in> set (k # ks). c y \<le> c x"
    proof
      fix y assume "y \<in> set (k # ks)"
      then have "y \<in> set pre \<or> y = ?r \<or> y \<in> set post" unfolding d by auto
      then have "c y \<le> c ?r" using lo hi by (auto simp: less_imp_le)
      then show "c y \<le> c x" using False by simp
    qed
    ultimately show ?thesis unfolding r by (metis empty_iff list.set(1))
  qed
qed

text \<open>
  Claim C7: pushing raw labels one by one from the empty buffer leaves the last four of
  them (a buffer of at most four stays at most four: the oldest label is dropped), and on
  a non-empty buffer \<open>getStableGesture\<close> returns a label of the buffer whose count is
  greatest; among the labels with that count it is the one whose first appearance in the
  buffer is latest, that is, the last of them in the order of the keys of \<^verbatim>\<open>counts\<close>.
\<close>

theorem C7_buffer_and_majority:
  "foldl (\<lambda>b g. pushGesture g b) [] gs = drop (length gs - 4) gs
   \<and> (length buf \<le> 4 \<longrightarrow> length (pushGesture g buf) \<le> 4)
   \<and> (buf \<noteq> [] \<longrightarrow>
        (\<exists>w. getStableGesture buf = Inr w \<and> w \<in> set buf
           \<and> (\<forall>h. count_list buf h \<le> count_list buf w)
           \<and> (\<forall>h \<in> set buf. count_list buf h = count_list buf w
                  \<longrightarrow> firstIndex buf h \<le> firstIndex buf w)))"
proof -
  have maj: "\<exists>w. getStableGesture buf = Inr w \<and> w \<in> set buf
           \<and> (\<forall>h. count_list buf h \<le> count_list buf w)
           \<and> (\<forall>h \<in> set buf. count_list buf h = count_list buf w
                  \<longrightarrow> firstIndex buf h \<le> firstIndex buf w)" if ne: "buf \<noteq> []"
  proof -
    let ?c = "count_list buf"
    let ?f = "\<lambda>a b. if ?c a > ?c b then a else b"
    from ne obtain k ks where ks: "firstSeen buf = k # ks" by (cases buf) auto
    let ?w = "foldl ?f k ks"
    have res: "getStableGesture buf = Inr ?w"
      by (simp add: getStableGesture_def keys_gestureCounts ks countOf_gestureCounts)
    from reduce_last_max[of k ks ?c] obtain pre post where d: "k # ks = pre @ ?w # post"
      and lo: "\<forall>x \<in> set pre. ?c x \<le> ?c ?w" and hi: "\<forall>x \<in> set post. ?c x < ?c ?w" by blast
    have fs: "firstSeen buf = pre @ ?w # post" using ks d by simp
    have mem: "?w \<in> set buf" using fs set_firstSeen[of buf] by auto
    have max: "?c h \<le> ?c ?w" for h
    proof (cases "h \<in> set buf")
      case True
      then have "h \<in> set pre \<or> h = ?w \<or> h \<in> set post" using fs set_firstSeen[of buf] by auto
      then show ?thesis using lo hi by (auto simp: less_imp_le)
    next
      case False
      then show ?thesis by (simp add: count_list_0_iff)
    qed
    have tie: "firstIndex buf h \<le> firstIndex buf ?w" if h: "h \<in> set buf" and eq: "?c h = ?c ?w" for h
    proof -
      from h have "h \<in> set pre \<or> h = ?w \<or> h \<in> set post" using fs set_firstSeen[of buf] by auto
      moreover have "h \<notin> set post" using hi eq by auto
      moreover have "firstIndex buf h < firstIndex buf ?w" if "h \<in> set pre"
        using firstSeen_sorted[of buf] that unfolding fs by (simp add: sorted_wrt_append)
      ultimately show ?thesis by auto
    qed
    from res mem max tie show ?thesis by blast
  qed
  show ?thesis using push_all pushGesture_length maj by blast
qed


text \<open>A tie of two against two: the label that appeared second wins.\<close>

theorem C7_buffer_and_majority_witness:
  "length [PINCH, OPEN, OPEN, PINCH] \<le> 4
   \<and> length (pushGesture FIST [PINCH, OPEN, OPEN, PINCH]) \<le> 4
   \<and> [PINCH, OPEN, OPEN, PINCH] \<noteq> []
   \<and> getStableGesture [PINCH, OPEN, OPEN, PINCH] = Inr OPEN
   \<and> PINCH \<in> set [PINCH, OPEN, OPEN, PINCH]
   \<and> count_list [PINCH, OPEN, OPEN, PINCH] PINCH = count_list [PINCH, OPEN, OPEN, PINCH] OPEN
   \<and> firstIndex [PINCH, OPEN, OPEN, PINCH] PINCH \<le> firstIndex [PINCH, OPEN, OPEN, PINCH] OPEN"
  using C7_buffer_and_majority [of "[]" "[PINCH, OPEN, OPEN, PINCH]" FIST]
  by (simp add: getStableGesture_def gestureCounts_def countOf_def firstIndex_def)

section \<open>Properties of the hold verification\<close>

lemma holdVerify_PINCH:
  "holdVerify PINCH t e =
     ((if t - pinchHoldStart t e < 80 then (if currentGesture e = PINCH then PINCH else NONE) else PINCH),
      e\<lparr>pinchStartTime := pinchHoldStart t e, fistStartTime := 0\<rparr>)"
  by (simp add: holdVerify_def pinchHoldStart_def PINCH_REQUIRED_HOLD_def Let_def)

lemma holdVerify_FIST:
  "holdVerify FIST t e =
     ((if t - fistHoldStart t e < 40 then (if currentGesture e = FIST then FIST else NONE) else FIST),
      e\<lparr>pinchStartTime := 0, fistStartTime := fistHoldStart t e\<rparr>)"
  by (simp add: holdVerify_def fistHoldStart_def FIST_REQUIRED_HOLD_def Let_def)

lemma holdVerify_other:
  "g \<noteq> PINCH \<Longrightarrow> g \<noteq> FIST \<Longrightarrow>
   holdVerify g t e = (g, e\<lparr>pinchStartTime := 0, fistStartTime := 0\<rparr>)"
  by (simp add: holdVerify_def Let_def)





lemma onGestureEnter_timers:
  "onGestureEnter g i e = Done e' \<Longrightarrow>
     pinchStartTime e' = pinchStartTime e \<and> fistStartTime e' = fistStartTime e"
  "onGestureEnter g i e = Threw x e' \<Longrightarrow>
     pinchStartTime e' = pinchStartTime e \<and> fistStartTime e' = fistStartTime e"
  by (auto simp: onGestureEnter_def tryGrab_def confirmCard_def triggerDisintegrate_def
      resetDeck_def setState_def createCardRing_def Let_def split: if_splits option.splits)

lemma holdVerify_clears:
  "g \<noteq> PINCH \<Longrightarrow> pinchStartTime (snd (holdVerify g t e)) = 0"
  "g \<noteq> FIST \<Longrightarrow> fistStartTime (snd (holdVerify g t e)) = 0"
  by (simp_all add: holdVerify_def Let_def split: prod.splits)

text \<open>An update with a gesture other than PINCH (FIST) leaves the PINCH (FIST) timer clear:
  the state in which a stream of PINCH (FIST) updates starts.\<close>

lemma timers_cleared:
  "g \<noteq> PINCH \<Longrightarrow> pinchStartTime (fst (handleGestureUpdate g i e)) = 0"
  "g \<noteq> FIST \<Longrightarrow> fistStartTime (fst (handleGestureUpdate g i e)) = 0"
proof -
  obtain p e1 where hv: "holdVerify g (now i) e = (p, e1)" by (cases "holdVerify g (now i) e")
  have stay: "pinchStartTime (fst (handleGestureUpdate g i e)) = pinchStartTime e1
              \<and> fistStartTime (fst (handleGestureUpdate g i e)) = fistStartTime e1"
  proof (cases "currentGesture e1 \<noteq> p \<and> now i > gestureCooldown e1")
    case True
    show ?thesis
    proof (cases "onGestureEnter p i (e1\<lparr>currentGesture := p\<rparr>)")
      case (Done e2)
      then show ?thesis
        using True onGestureEnter_timers(1)[OF Done] by (simp add: handleGestureUpdate_def hv)
    next
      case (Threw x e2)
      then show ?thesis
        using True onGestureEnter_timers(2)[OF Threw] by (simp add: handleGestureUpdate_def hv)
    qed
  next
    case False
    then show ?thesis by (auto simp: handleGestureUpdate_def hv)
  qed
  show "g \<noteq> PINCH \<Longrightarrow> pinchStartTime (fst (handleGestureUpdate g i e)) = 0"
    using stay holdVerify_clears(1)[of g "now i" e] hv by simp
  show "g \<noteq> FIST \<Longrightarrow> fistStartTime (fst (handleGestureUpdate g i e)) = 0"
    using stay holdVerify_clears(2)[of g "now i" e] hv by simp
qed



lemma init_stabilizer:
  "currentGesture (init rs) = NONE" "pinchStartTime (init rs) = 0" "fistStartTime (init rs) = 0"
  "gestureCooldown (init rs) = 0" "gestureBuffer (init rs) = []" "inputMode (init rs) = HANDS"
  by (simp_all add: init_def newEngine_def setState_def createCardRing_def)


section \<open>Properties of the session counter and the cooldown\<close>

lemma sessionInv_cong:
  "state e' = state e \<Longrightarrow> sessionDrawnCount e' = sessionDrawnCount e \<Longrightarrow>
   activeCardData e' = activeCardData e \<Longrightarrow> sessionInv e' = sessionInv e"
  by (simp add: sessionInv_def)

lemma freshSession_cong:
  "state e' = state e \<Longrightarrow> sessionDrawnCount e' = sessionDrawnCount e \<Longrightarrow>
   history e' = history e \<Longrightarrow> deck e' = deck e \<Longrightarrow> cardRing e' = cardRing e \<Longrightarrow>
   freshSession e' = freshSession e"
  by (simp add: freshSession_def)

lemma mset_shuffleLoop: "k < length xs \<Longrightarrow> mset (shuffleLoop k rs xs) = mset xs"
proof (induction k arbitrary: rs xs)
  case 0
  show ?case by simp
next
  case (Suc k)
  let ?j = "case rs of [] \<Rightarrow> 0 | r # _ \<Rightarrow> r mod (Suc k + 1)"
  have j: "?j < length xs"
  proof (cases rs)
    case Nil
    then show ?thesis using Suc.prems by auto
  next
    case (Cons r rest)
    have "r mod (Suc k + 1) \<le> Suc k" using mod_less_divisor[of "Suc k + 1" r] by simp
    then have "r mod (Suc k + 1) < length xs" using Suc.prems by (rule le_less_trans)
    then show ?thesis using Cons by simp
  qed
  have sw: "mset (xs[Suc k := xs ! ?j, ?j := xs ! Suc k]) = mset xs"
    using mset_swap[OF j Suc.prems] by simp
  have "k < length (xs[Suc k := xs ! ?j, ?j := xs ! Suc k])" using Suc.prems by simp
  from Suc.IH[OF this] show ?case using sw by (simp add: Let_def)
qed

lemma mset_shuffleDeck: "mset (shuffleDeck rs xs) = mset xs"
proof (cases xs)
  case Nil
  then show ?thesis by (simp add: shuffleDeck_def)
next
  case (Cons x ys)
  then have "length xs - 1 < length xs" by simp
  then show ?thesis unfolding shuffleDeck_def by (rule mset_shuffleLoop)
qed

lemma freshSession_init: "freshSession (init rs)"
  by (simp add: freshSession_def init_def newEngine_def setState_def createCardRing_def
      mset_shuffleDeck)

lemma sessionInv_init: "sessionInv (init rs)"
  by (simp add: sessionInv_def init_def newEngine_def setState_def createCardRing_def)

lemma holdVerify_session:
  "state (snd (holdVerify g t e)) = state e"
  "sessionDrawnCount (snd (holdVerify g t e)) = sessionDrawnCount e"
  "activeCardData (snd (holdVerify g t e)) = activeCardData e"
  "currentGesture (snd (holdVerify g t e)) = currentGesture e"
  "gestureCooldown (snd (holdVerify g t e)) = gestureCooldown e"
  "gestureBuffer (snd (holdVerify g t e)) = gestureBuffer e"
  "inputMode (snd (holdVerify g t e)) = inputMode e"
  by (simp_all add: holdVerify_def Let_def split: prod.splits)

lemma tryGrab_session:
  "sessionInv e \<Longrightarrow> sessionInv (tryGrab i e)"
  "sessionDrawnCount (tryGrab i e) = sessionDrawnCount e"
  "currentGesture (tryGrab i e) = currentGesture e"
  "gestureCooldown (tryGrab i e) = gestureCooldown e"
  by (auto simp: sessionInv_def tryGrab_def setState_def createCardRing_def Let_def
      split: option.splits)

lemma confirmCard_session:
  assumes "sessionInv e" "state e = PREVIEW"
  shows "\<exists>e'. confirmCard i e = Done e' \<and> sessionInv e'
           \<and> sessionDrawnCount e' = sessionDrawnCount e + 1
           \<and> currentGesture e' = currentGesture e \<and> gestureCooldown e' = gestureCooldown e"
  using assms
  by (auto simp: sessionInv_def confirmCard_def setState_def Let_def split: option.splits)

lemma triggerDisintegrate_session:
  "sessionInv e \<Longrightarrow> sessionInv (triggerDisintegrate e)"
  "sessionDrawnCount (triggerDisintegrate e) = sessionDrawnCount e"
  "currentGesture (triggerDisintegrate e) = currentGesture e"
  "gestureCooldown (triggerDisintegrate e) = gestureCooldown e"
  by (auto simp: sessionInv_def triggerDisintegrate_def setState_def)

lemma resetDeck_session:
  "sessionInv (resetDeck i e)"
  "freshSession (resetDeck i e)"
  "sessionDrawnCount (resetDeck i e) = 0"
  "currentGesture (resetDeck i e) = currentGesture e"
  "gestureCooldown (resetDeck i e) = gestureCooldown e"
  by (simp_all add: sessionInv_def freshSession_def resetDeck_def setState_def
      createCardRing_def Let_def mset_shuffleDeck)

lemma onGestureEnter_session:
  assumes "sessionInv e"
  shows "\<exists>e'. onGestureEnter g i e = Done e' \<and> sessionInv e'
           \<and> (sessionDrawnCount e \<le> sessionDrawnCount e' \<or> freshSession e')
           \<and> currentGesture e' = currentGesture e \<and> gestureCooldown e' = gestureCooldown e"
proof (cases "g = FIST \<and> state e = PREVIEW")
  case True
  from confirmCard_session[OF assms, of i] True obtain e' where
    "confirmCard i e = Done e'" "sessionInv e'" "sessionDrawnCount e' = sessionDrawnCount e + 1"
    "currentGesture e' = currentGesture e" "gestureCooldown e' = gestureCooldown e" by blast
  then show ?thesis using True by (simp add: onGestureEnter_def)
next
  case False
  then show ?thesis
    using assms
    by (auto simp: onGestureEnter_def tryGrab_session triggerDisintegrate_session resetDeck_session)
qed

text \<open>What one gesture update does to the stabilizer and the session.\<close>

lemma handleGestureUpdate_summary:
  assumes "sessionInv e"
  shows "sessionInv (fst (handleGestureUpdate g i e))
         \<and> (sessionDrawnCount e \<le> sessionDrawnCount (fst (handleGestureUpdate g i e))
              \<or> freshSession (fst (handleGestureUpdate g i e)))
         \<and> (if currentGesture (fst (handleGestureUpdate g i e)) \<noteq> currentGesture e
             then gestureCooldown e < now i
                  \<and> gestureCooldown (fst (handleGestureUpdate g i e)) = now i + 50
                  \<and> enters (snd (handleGestureUpdate g i e))
                      = [currentGesture (fst (handleGestureUpdate g i e))]
             else gestureCooldown (fst (handleGestureUpdate g i e)) = gestureCooldown e
                  \<and> enters (snd (handleGestureUpdate g i e)) = [])"
proof -
  obtain p e1 where hv: "holdVerify g (now i) e = (p, e1)" by (cases "holdVerify g (now i) e")
  have e1: "state e1 = state e" "sessionDrawnCount e1 = sessionDrawnCount e"
    "activeCardData e1 = activeCardData e" "currentGesture e1 = currentGesture e"
    "gestureCooldown e1 = gestureCooldown e"
    using holdVerify_session[of g "now i" e] hv by simp_all
  have inv1: "sessionInv e1" using assms e1 sessionInv_cong[of e1 e] by simp
  show ?thesis
  proof (cases "currentGesture e \<noteq> p \<and> now i > gestureCooldown e")
    case True
    let ?e1 = "e1\<lparr>currentGesture := p\<rparr>"
    have "sessionInv ?e1" using inv1 sessionInv_cong[of ?e1 e1] by simp
    from onGestureEnter_session[OF this, of p i] obtain e2 where
      d: "onGestureEnter p i ?e1 = Done e2" and i2: "sessionInv e2"
      and c2: "sessionDrawnCount ?e1 \<le> sessionDrawnCount e2 \<or> freshSession e2"
      and g2: "currentGesture e2 = currentGesture ?e1" "gestureCooldown e2 = gestureCooldown ?e1"
      by blast
    have h: "handleGestureUpdate g i e
               = (e2\<lparr>gestureCooldown := now i + 50\<rparr>, [Enter p, Hold (currentGesture e2)])"
      using True by (simp add: handleGestureUpdate_def hv e1 d)
    have "sessionInv (e2\<lparr>gestureCooldown := now i + 50\<rparr>)"
      using i2 sessionInv_cong[of "e2\<lparr>gestureCooldown := now i + 50\<rparr>" e2] by simp
    moreover have "freshSession (e2\<lparr>gestureCooldown := now i + 50\<rparr>) = freshSession e2"
      by (rule freshSession_cong) simp_all
    ultimately show ?thesis using True c2 g2 e1 by (auto simp: h)
  next
    case False
    then have h: "handleGestureUpdate g i e = (e1, [Hold (currentGesture e1)])"
      by (auto simp: handleGestureUpdate_def hv e1)
    show ?thesis using inv1 e1 by (simp add: h)
  qed
qed

lemma updateCardTransform_session:
  "sessionInv e \<Longrightarrow> sessionInv (updateCardTransform b e)"
  "sessionDrawnCount (updateCardTransform b e) = sessionDrawnCount e"
  "currentGesture (updateCardTransform b e) = currentGesture e"
  "gestureCooldown (updateCardTransform b e) = gestureCooldown e"
  by (auto simp: sessionInv_def updateCardTransform_def setState_def)

lemma disintegrateTimeout_session:
  "sessionInv e \<Longrightarrow> sessionInv (disintegrateTimeout e)"
  "sessionDrawnCount (disintegrateTimeout e) = sessionDrawnCount e"
  "currentGesture (disintegrateTimeout e) = currentGesture e"
  "gestureCooldown (disintegrateTimeout e) = gestureCooldown e"
  by (auto simp: sessionInv_def disintegrateTimeout_def setState_def)

lemma step_summary:
  assumes "sessionInv e"
  shows "sessionInv (fst (step ev e))
         \<and> (sessionDrawnCount e \<le> sessionDrawnCount (fst (step ev e))
              \<or> freshSession (fst (step ev e)))
         \<and> (if currentGesture (fst (step ev e)) \<noteq> currentGesture e
             then gestureCooldown e < eventTime ev
                  \<and> gestureCooldown (fst (step ev e)) = eventTime ev + 50
                  \<and> enters (snd (step ev e)) = [currentGesture (fst (step ev e))]
             else gestureCooldown (fst (step ev e)) = gestureCooldown e
                  \<and> enters (snd (step ev e)) = [])"
proof (cases ev)
  case (HandResults hs i)
  show ?thesis
  proof (cases "inputMode e \<noteq> HANDS")
    case True
    then show ?thesis using assms HandResults by (simp add: processHandResults_def)
  next
    case hands: False
    show ?thesis
    proof (cases hs)
      case Nil
      then show ?thesis
        using handleGestureUpdate_summary[OF assms, of NONE i] HandResults hands
        by (simp add: processHandResults_def)
    next
      case (Cons lm rest)
      show ?thesis
      proof (cases "detectGestureRaw lm")
        case (Inl err)
        then show ?thesis using assms HandResults hands Cons by (simp add: processHandResults_def)
      next
        case (Inr raw)
        let ?e1 = "e\<lparr>gestureBuffer := pushGesture raw (gestureBuffer e)\<rparr>"
        have i1: "sessionInv ?e1" using assms sessionInv_cong[of ?e1 e] by simp
        show ?thesis
        proof (cases "getStableGesture (pushGesture raw (gestureBuffer e))")
          case (Inl err)
          then show ?thesis
            using i1 HandResults hands Cons Inr by (simp add: processHandResults_def)
        next
          case stable: (Inr sg)
          have st: "step ev e = handleGestureUpdate sg i ?e1"
            using HandResults hands Cons Inr stable by (simp add: processHandResults_def)
          have k: "currentGesture ?e1 = currentGesture e" "gestureCooldown ?e1 = gestureCooldown e"
            "sessionDrawnCount ?e1 = sessionDrawnCount e" "eventTime ev = now i"
            using HandResults by simp_all
          show ?thesis
            using handleGestureUpdate_summary[OF i1, of sg i] unfolding st k by blast
        qed
      qed
    qed
  qed
next
  case (MouseDown b c i)
  then show ?thesis
    using assms handleGestureUpdate_summary[OF assms, of PINCH i]
      handleGestureUpdate_summary[OF assms, of FIST i]
    by (simp add: mouseDown_def)
next
  case (MouseUp i)
  then show ?thesis
    using assms handleGestureUpdate_summary[OF assms, of NONE i] by (simp add: mouseUp_def)
next
  case (AnimationFrame b)
  then show ?thesis using assms by (simp add: updateCardTransform_session)
next
  case DisintegrateTimeout
  then show ?thesis using assms by (simp add: disintegrateTimeout_session)
next
  case (ResetDeckCall i)
  then show ?thesis by (simp add: resetDeck_session)
next
  case (SelectMode m)
  then show ?thesis
    using assms sessionInv_cong[of "e\<lparr>inputMode := m\<rparr>" e] by simp
qed

lemma sessionInv_run: "sessionInv e \<Longrightarrow> sessionInv (run evs e)"
  by (induction evs arbitrary: e) (simp_all add: step_summary)

lemma changeTimes_spaced:
  "sessionInv e \<Longrightarrow>
   sorted_wrt (\<lambda>t t'. t + 50 < t') (changeTimes evs e)
   \<and> (\<forall>t \<in> set (changeTimes evs e). gestureCooldown e < t)"
proof (induction evs arbitrary: e)
  case Nil
  show ?case by simp
next
  case (Cons ev evs)
  let ?e' = "fst (step ev e)"
  note s = step_summary[OF Cons.prems, of ev]
  have inv': "sessionInv ?e'" using s by simp
  note ih = Cons.IH[OF inv']
  show ?case
  proof (cases "currentGesture ?e' \<noteq> currentGesture e")
    case True
    then have c: "gestureCooldown e < eventTime ev" "gestureCooldown ?e' = eventTime ev + 50"
      using s by simp_all
    have "\<forall>t \<in> set (changeTimes evs ?e'). eventTime ev + 50 < t" using ih c by simp
    then show ?thesis using True ih c by auto
  next
    case False
    then have "gestureCooldown ?e' = gestureCooldown e" using s by simp
    then show ?thesis using False ih by simp
  qed
qed


text \<open>
  Claim C5: in every run of events from the initialised engine, any two events at which
  the current gesture changed have clock readings more than 50 ms apart (each change
  comes with \<^verbatim>\<open>now > gestureCooldown\<close> and sets the cooldown to \<^verbatim>\<open>now + 50\<close>), and an
  event fires exactly one enter notification, for the new gesture, if it changes the
  current gesture and none otherwise.
\<close>

theorem C5_cooldown_spacing:
  "sorted_wrt (\<lambda>t t'. t + 50 < t') (changeTimes evs (init rs))
   \<and> enters (snd (step ev (run evs (init rs)))) =
       (if currentGesture (fst (step ev (run evs (init rs)))) \<noteq> currentGesture (run evs (init rs))
        then [currentGesture (fst (step ev (run evs (init rs))))] else [])"
proof -
  have "sessionInv (run evs (init rs))" using sessionInv_init by (rule sessionInv_run)
  from step_summary[OF this, of ev] changeTimes_spaced[OF sessionInv_init, of evs rs]
  show ?thesis by (simp split: if_splits)
qed

lemma init_session:
  "state (init rs) = READY" "sessionDrawnCount (init rs) = 0" "history (init rs) = []"
  "activeCardData (init rs) = None" "currentCardMesh (init rs) = False"
  by (simp_all add: init_def newEngine_def setState_def createCardRing_def)

lemma fistClicks_run:
  "currentGesture (run fistClicks (init [])) = FIST"
  "gestureCooldown (run fistClicks (init [])) = 1090"
  "inputMode (run fistClicks (init [])) = MOUSE"
  "changeTimes fistClicks (init []) = [1040]"
  by (simp_all add: fistClicks_def mouseDown_def handleGestureUpdate_def holdVerify_FIST
      fistHoldStart_def init_stabilizer init_session atTime_def onGestureEnter_def
      MAX_DRAW_PER_SESSION_def Let_def)

text \<open>FIST accepted at 1040, released at 1100: two changes, 60 ms apart, one enter each.\<close>

theorem C5_cooldown_spacing_witness:
  "changeTimes (fistClicks @ [MouseUp (atTime 1100)]) (init []) = [1040, 1100]
   \<and> sorted_wrt (\<lambda>t t'. t + 50 < t') [1040, 1100 :: int]
   \<and> currentGesture (fst (step (MouseUp (atTime 1100)) (run fistClicks (init []))))
        \<noteq> currentGesture (run fistClicks (init []))
   \<and> enters (snd (step (MouseUp (atTime 1100)) (run fistClicks (init [])))) = [NONE]"
proof -
  have up: "currentGesture (fst (step (MouseUp (atTime 1100)) (run fistClicks (init [])))) = NONE"
    by (simp add: mouseUp_def fistClicks_run handleGestureUpdate_def holdVerify_other
        atTime_def onGestureEnter_def Let_def)
  have ct: "changeTimes (fistClicks @ [MouseUp (atTime 1100)]) (init []) = [1040, 1100]"
    using up by (simp add: fistClicks_def mouseDown_def mouseUp_def handleGestureUpdate_def holdVerify_FIST holdVerify_other
      fistHoldStart_def init_stabilizer init_session atTime_def onGestureEnter_def
      MAX_DRAW_PER_SESSION_def Let_def)
  show ?thesis
    using C5_cooldown_spacing [of "fistClicks" "[]" "MouseUp (atTime 1100)"] up ct
    by (simp add: fistClicks_run)
qed

section \<open>Properties of the deck and the history\<close>

lemma deckInv_cong:
  "state e' = state e \<Longrightarrow> deck e' = deck e \<Longrightarrow> history e' = history e \<Longrightarrow>
   sessionDrawnCount e' = sessionDrawnCount e \<Longrightarrow> activeCardData e' = activeCardData e \<Longrightarrow>
   cardRing e' = cardRing e \<Longrightarrow> deckInv e' = deckInv e"
  by (simp add: deckInv_def deckIds_def historyIds_def split: option.splits)

lemma hitOnRing_cong: "cardRing e' = cardRing e \<Longrightarrow> hitOnRing i e' = hitOnRing i e"
  by (simp add: hitOnRing_def split: option.splits)

lemma distinct_TAROT_DECK: "distinct (map card_id TAROT_DECK)"
  by (simp add: TAROT_DECK_def mkCard_def)

lemma length_TAROT_DECK: "length TAROT_DECK = 31"
  by (simp add: TAROT_DECK_def)

lemma shuffled_deck:
  "distinct (map card_id (shuffleDeck rs TAROT_DECK))"
  "set (shuffleDeck rs TAROT_DECK) = set TAROT_DECK"
  "length (shuffleDeck rs TAROT_DECK) = 31"
proof -
  have m: "mset (shuffleDeck rs TAROT_DECK) = mset TAROT_DECK" by (rule mset_shuffleDeck)
  then have "mset (map card_id (shuffleDeck rs TAROT_DECK)) = mset (map card_id TAROT_DECK)"
    by simp
  then show "distinct (map card_id (shuffleDeck rs TAROT_DECK))"
    using distinct_TAROT_DECK by (metis mset_eq_imp_distinct_iff)
  show "set (shuffleDeck rs TAROT_DECK) = set TAROT_DECK" using m by (rule mset_eq_setD)
  show "length (shuffleDeck rs TAROT_DECK) = 31"
    using m length_TAROT_DECK by (metis size_mset)
qed

lemma deckInv_init: "deckInv (init rs)"
  by (simp add: deckInv_def deckIds_def historyIds_def init_def newEngine_def setState_def
      createCardRing_def shuffled_deck)

lemma deckInv_resetDeck: "deckInv (resetDeck i e)"
  by (simp add: deckInv_def deckIds_def historyIds_def resetDeck_def setState_def
      createCardRing_def shuffled_deck Let_def)

text \<open>Removing by identity removes exactly the card hit.\<close>

lemma filter_by_id:
  assumes "distinct (map card_id xs)" "c \<in> set xs"
  shows "filter (\<lambda>d. card_id d \<noteq> card_id c) xs = remove1 c xs"
    and "length (filter (\<lambda>d. card_id d \<noteq> card_id c) xs) + 1 = length xs"
    and "c \<notin> set (filter (\<lambda>d. card_id d \<noteq> card_id c) xs)"
proof -
  have inj: "inj_on card_id (set xs)" using assms(1) by (simp add: distinct_map)
  have d: "distinct xs" using assms(1) by (simp add: distinct_map)
  have "filter (\<lambda>d. card_id d \<noteq> card_id c) xs = filter (\<lambda>d. d \<noteq> c) xs"
    using inj assms(2) by (intro filter_cong) (auto dest: inj_onD)
  also have "\<dots> = filter ((\<noteq>) c) xs" by (intro filter_cong) auto
  also have "\<dots> = remove1 c xs"
    using d by (simp add: distinct_remove1_removeAll removeAll_filter_not_eq)
  finally show eq: "filter (\<lambda>d. card_id d \<noteq> card_id c) xs = remove1 c xs" .
  have "0 < length xs" using assms(2) by (cases xs) auto
  then show "length (filter (\<lambda>d. card_id d \<noteq> card_id c) xs) + 1 = length xs"
    unfolding eq using assms(2) by (simp add: length_remove1)
  show "c \<notin> set (filter (\<lambda>d. card_id d \<noteq> card_id c) xs)" by simp
qed

lemma deckInv_tryGrab:
  assumes "deckInv e" "hitOnRing i e"
  shows "deckInv (tryGrab i e)"
proof (cases "sessionDrawnCount e \<ge> MAX_DRAW_PER_SESSION \<or> hit i = None")
  case True
  then show ?thesis using assms(1) by (auto simp: tryGrab_def)
next
  case False
  then obtain c where c: "hit i = Some c" by auto
  have mem: "c \<in> set (deck e)" using assms c by (simp add: hitOnRing_def deckInv_def)
  let ?d = "filter (\<lambda>d. card_id d \<noteq> card_id c) (deck e)"
  have g: "tryGrab i e = e\<lparr>activeCardData := Some c, isReversed := coin i, deck := ?d,
                            cardRing := ?d, currentCardMesh := True, state := GRABBING\<rparr>"
    using False c by (simp add: tryGrab_def setState_def createCardRing_def Let_def)
  have "distinct (map card_id ?d)" using assms(1) by (simp add: deckInv_def deckIds_def distinct_map_filter)
  moreover have "card_id c \<notin> set (map card_id ?d)" by auto
  moreover have "card_id c \<notin> set (historyIds e)"
    using assms(1) mem by (auto simp: deckInv_def deckIds_def)
  moreover have "set (map card_id ?d) \<inter> set (historyIds e) = {}"
    using assms(1) by (auto simp: deckInv_def deckIds_def)
  moreover have "set ?d \<subseteq> set TAROT_DECK" using assms(1) by (auto simp: deckInv_def)
  ultimately show ?thesis
    using assms(1) unfolding g by (simp add: deckInv_def deckIds_def historyIds_def)
qed

lemma deckInv_confirmCard:
  assumes "deckInv e" "state e = PREVIEW"
  shows "\<exists>c. activeCardData e = Some c
           \<and> confirmCard i e = Done (e\<lparr>sessionDrawnCount := sessionDrawnCount e + 1, state := CONFIRMED,
                   history := \<lparr>h_isReversed = isReversed e, timestamp = now i, cardData = c\<rparr> # history e\<rparr>)
           \<and> deckInv (e\<lparr>sessionDrawnCount := sessionDrawnCount e + 1, state := CONFIRMED,
                   history := \<lparr>h_isReversed = isReversed e, timestamp = now i, cardData = c\<rparr> # history e\<rparr>)"
proof -
  from assms obtain c where c: "activeCardData e = Some c"
    "card_id c \<notin> set (deckIds e)" "card_id c \<notin> set (historyIds e)"
    by (auto simp: deckInv_def split: option.splits)
  have "confirmCard i e = Done (e\<lparr>sessionDrawnCount := sessionDrawnCount e + 1, state := CONFIRMED,
                   history := \<lparr>h_isReversed = isReversed e, timestamp = now i, cardData = c\<rparr> # history e\<rparr>)"
    using c(1) by (simp add: confirmCard_def setState_def Let_def)
  moreover have "deckInv (e\<lparr>sessionDrawnCount := sessionDrawnCount e + 1, state := CONFIRMED,
                   history := \<lparr>h_isReversed = isReversed e, timestamp = now i, cardData = c\<rparr> # history e\<rparr>)"
    using assms(1) c by (simp add: deckInv_def deckIds_def historyIds_def)
  ultimately show ?thesis using c(1) by blast
qed

lemma deckInv_simple:
  "deckInv e \<Longrightarrow> deckInv (triggerDisintegrate e)"
  "deckInv e \<Longrightarrow> deckInv (disintegrateTimeout e)"
  "deckInv e \<Longrightarrow> deckInv (updateCardTransform b e)"
  by (auto simp: deckInv_def deckIds_def historyIds_def triggerDisintegrate_def
      disintegrateTimeout_def updateCardTransform_def setState_def split: option.splits)

lemma deckInv_onGestureEnter:
  assumes "deckInv e" "hitOnRing i e"
  shows "\<exists>e'. onGestureEnter g i e = Done e' \<and> deckInv e'"
proof (cases "g = FIST \<and> state e = PREVIEW")
  case True
  then show ?thesis using deckInv_confirmCard[OF assms(1), of i] by (auto simp: onGestureEnter_def)
next
  case False
  then show ?thesis
    using assms by (auto simp: onGestureEnter_def deckInv_tryGrab deckInv_simple deckInv_resetDeck)
qed

lemma holdVerify_timers:
  "\<exists>a b. snd (holdVerify g t e) = e\<lparr>pinchStartTime := a, fistStartTime := b\<rparr>"
proof -
  consider "g = PINCH" | "g = FIST" | "g \<noteq> PINCH" "g \<noteq> FIST" by blast
  then show ?thesis
  proof cases
    case 1
    then show ?thesis by (simp add: holdVerify_PINCH) blast
  next
    case 2
    then show ?thesis by (simp add: holdVerify_FIST) blast
  next
    case 3
    then show ?thesis by (simp add: holdVerify_other) blast
  qed
qed

lemma deckInv_handleGestureUpdate:
  assumes "deckInv e" "hitOnRing i e"
  shows "deckInv (fst (handleGestureUpdate g i e))"
proof -
  obtain p e1 where hv: "holdVerify g (now i) e = (p, e1)" by (cases "holdVerify g (now i) e")
  from holdVerify_timers[of g "now i" e] hv obtain a b where
    e1: "e1 = e\<lparr>pinchStartTime := a, fistStartTime := b\<rparr>" by auto
  have i1: "deckInv e1" unfolding e1 using assms(1) deckInv_cong[of "e\<lparr>pinchStartTime := a, fistStartTime := b\<rparr>" e] by simp
  show ?thesis
  proof (cases "currentGesture e1 \<noteq> p \<and> now i > gestureCooldown e1")
    case True
    let ?e1 = "e1\<lparr>currentGesture := p\<rparr>"
    have "deckInv ?e1" using i1 deckInv_cong[of ?e1 e1] by simp
    moreover have "hitOnRing i ?e1" using assms(2) hitOnRing_cong[of ?e1 e] by (simp add: e1)
    ultimately obtain e2 where d: "onGestureEnter p i ?e1 = Done e2" and i2: "deckInv e2"
      using deckInv_onGestureEnter by blast
    have "fst (handleGestureUpdate g i e) = e2\<lparr>gestureCooldown := now i + 50\<rparr>"
      using True by (simp add: handleGestureUpdate_def hv d)
    then show ?thesis using i2 deckInv_cong[of "e2\<lparr>gestureCooldown := now i + 50\<rparr>" e2] by simp
  next
    case False
    then have "fst (handleGestureUpdate g i e) = e1"
      by (auto simp: handleGestureUpdate_def hv)
    then show ?thesis using i1 by simp
  qed
qed

lemma deckInv_step:
  assumes "deckInv e" "admissible ev e"
  shows "deckInv (fst (step ev e))"
proof (cases ev)
  case (HandResults hs i)
  then have h: "hitOnRing i e" using assms(2) by (simp add: admissible_def)
  show ?thesis
  proof (cases "inputMode e \<noteq> HANDS")
    case True
    then show ?thesis using assms HandResults by (simp add: processHandResults_def)
  next
    case hands: False
    show ?thesis
    proof (cases hs)
      case Nil
      then show ?thesis
        using deckInv_handleGestureUpdate[OF assms(1) h, of NONE] HandResults hands
        by (simp add: processHandResults_def)
    next
      case (Cons lm rest)
      show ?thesis
      proof (cases "detectGestureRaw lm")
        case (Inl err)
        then show ?thesis using assms HandResults hands Cons by (simp add: processHandResults_def)
      next
        case (Inr raw)
        let ?e1 = "e\<lparr>gestureBuffer := pushGesture raw (gestureBuffer e)\<rparr>"
        have i1: "deckInv ?e1" using assms(1) deckInv_cong[of ?e1 e] by simp
        have h1: "hitOnRing i ?e1" using h hitOnRing_cong[of ?e1 e] by simp
        show ?thesis
        proof (cases "getStableGesture (pushGesture raw (gestureBuffer e))")
          case (Inl err)
          then show ?thesis
            using i1 HandResults hands Cons Inr by (simp add: processHandResults_def)
        next
          case stable: (Inr sg)
          have st: "step ev e = handleGestureUpdate sg i ?e1"
            using HandResults hands Cons Inr stable by (simp add: processHandResults_def)
          show ?thesis unfolding st using i1 h1 by (rule deckInv_handleGestureUpdate)
        qed
      qed
    qed
  qed
next
  case (MouseDown b c i)
  then have h: "hitOnRing i e" using assms(2) by (simp add: admissible_def)
  show ?thesis
    using MouseDown assms(1) deckInv_handleGestureUpdate[OF assms(1) h, of PINCH]
      deckInv_handleGestureUpdate[OF assms(1) h, of FIST]
    by (simp add: mouseDown_def)
next
  case (MouseUp i)
  then have h: "hitOnRing i e" using assms(2) by (simp add: admissible_def)
  show ?thesis
    using MouseUp assms(1) deckInv_handleGestureUpdate[OF assms(1) h, of NONE]
    by (simp add: mouseUp_def)
next
  case (AnimationFrame b)
  then show ?thesis using assms(1) by (simp add: deckInv_simple)
next
  case DisintegrateTimeout
  then show ?thesis using assms(1) by (simp add: deckInv_simple)
next
  case (ResetDeckCall i)
  then show ?thesis by (simp add: deckInv_resetDeck)
next
  case (SelectMode m)
  then show ?thesis using assms(1) deckInv_cong[of "e\<lparr>inputMode := m\<rparr>" e] by simp
qed

lemma reachable_inv: "reachable e \<Longrightarrow> deckInv e \<and> sessionInv e"
proof (induction rule: reachable.induct)
  case (initial rs)
  show ?case by (simp add: deckInv_init sessionInv_init)
next
  case (after e ev)
  then show ?case by (simp add: deckInv_step step_summary)
qed


lemma tryGrab_hit:
  assumes "sessionDrawnCount e < MAX_DRAW_PER_SESSION" "hit i = Some c"
  shows "tryGrab i e = e\<lparr>activeCardData := Some c, isReversed := coin i,
                          deck := filter (\<lambda>d. card_id d \<noteq> card_id c) (deck e),
                          cardRing := filter (\<lambda>d. card_id d \<noteq> card_id c) (deck e),
                          currentCardMesh := True, state := GRABBING\<rparr>"
  using assms by (simp add: tryGrab_def setState_def createCardRing_def Let_def)

lemma grab_then_confirm:
  assumes inv: "deckInv e" and c: "sessionDrawnCount e < MAX_DRAW_PER_SESSION" "hit i = Some c"
    "c \<in> set (cardRing e)"
  shows "onGestureEnter FIST j (updateCardTransform True (tryGrab i e))
           = Done ((tryGrab i e)\<lparr>sessionDrawnCount := sessionDrawnCount e + 1, state := CONFIRMED,
                 history := \<lparr>h_isReversed = coin i, timestamp = now j, cardData = c\<rparr> # history e\<rparr>)"
proof -
  let ?g = "tryGrab i e"
  have g: "state ?g = GRABBING" "currentCardMesh ?g" "activeCardData ?g = Some c"
    "isReversed ?g = coin i" "history ?g = history e" "sessionDrawnCount ?g = sessionDrawnCount e"
    by (simp_all add: tryGrab_hit[OF c(1,2)])
  have u: "updateCardTransform True ?g = ?g\<lparr>state := PREVIEW\<rparr>"
    using g by (simp add: updateCardTransform_def setState_def)
  show ?thesis
    unfolding u using g by (simp add: onGestureEnter_def confirmCard_def setState_def Let_def)
qed

text \<open>
  Claim C6: in every reachable state below the quota, a grab that hits a card of the ring
  removes that card and only that card from the deck (the filter by identity is the
  removal of the one card), so the deck is one shorter and no longer holds the card; the
  grab leaves the history alone. When the card has reached the preview anchor and FIST is
  entered, the confirmation puts one entry for the card at the head of the history, the
  earlier entries following in their order; the card then occurs in the history exactly
  once, and the deck is unchanged by the confirmation.
\<close>

theorem C6_draw_removes_card:
  assumes "reachable e" "sessionDrawnCount e < 3" "hit i = Some c" "c \<in> set (cardRing e)"
  shows "c \<notin> set (deck (tryGrab i e))
     \<and> length (deck (tryGrab i e)) + 1 = length (deck e)
     \<and> deck (tryGrab i e) = filter (\<lambda>d. card_id d \<noteq> card_id c) (deck e)
     \<and> deck (tryGrab i e) = remove1 c (deck e)
     \<and> history (tryGrab i e) = history e
     \<and> onGestureEnter FIST j (updateCardTransform True (tryGrab i e))
         = Done (afterEnter FIST j (updateCardTransform True (tryGrab i e)))
     \<and> history (afterEnter FIST j (updateCardTransform True (tryGrab i e)))
         = \<lparr>h_isReversed = coin i, timestamp = now j, cardData = c\<rparr> # history e
     \<and> length (filter (\<lambda>h. card_id (cardData h) = card_id c)
                 (history (afterEnter FIST j (updateCardTransform True (tryGrab i e))))) = 1
     \<and> deck (afterEnter FIST j (updateCardTransform True (tryGrab i e))) = deck (tryGrab i e)"
proof -
  have inv: "deckInv e" using assms(1) reachable_inv by blast
  have lt: "sessionDrawnCount e < MAX_DRAW_PER_SESSION"
    using assms(2) by (simp add: MAX_DRAW_PER_SESSION_def)
  have mem: "c \<in> set (deck e)" using inv assms(4) by (simp add: deckInv_def)
  have dist: "distinct (map card_id (deck e))" using inv by (simp add: deckInv_def deckIds_def)
  note f = filter_by_id[OF dist mem]
  have g: "deck (tryGrab i e) = filter (\<lambda>d. card_id d \<noteq> card_id c) (deck e)"
    "history (tryGrab i e) = history e"
    by (simp_all add: tryGrab_hit[OF lt assms(3)])
  note gc = grab_then_confirm[OF inv lt assms(3,4), of j]
  have a: "afterEnter FIST j (updateCardTransform True (tryGrab i e))
             = (tryGrab i e)\<lparr>sessionDrawnCount := sessionDrawnCount e + 1, state := CONFIRMED,
                 history := \<lparr>h_isReversed = coin i, timestamp = now j, cardData = c\<rparr> # history e\<rparr>"
    by (simp add: afterEnter_def gc)
  have fresh: "card_id c \<notin> set (historyIds e)"
    using inv mem by (auto simp: deckInv_def deckIds_def)
  then have none: "filter (\<lambda>h. card_id (cardData h) = card_id c) (history e) = []"
    by (force simp: historyIds_def filter_empty_conv image_iff)
  show ?thesis
    using f g by (simp add: gc a none)
qed


lemma cycle_summary:
  assumes inv: "deckInv e" and r: "state e = READY"
    and lt: "sessionDrawnCount e < MAX_DRAW_PER_SESSION"
    and h: "hit i = Some c" "c \<in> set (cardRing e)"
  shows "dismiss k (drawAndConfirm i j e)
           = e\<lparr>activeCardData := Some c, isReversed := coin i,
                deck := filter (\<lambda>d. card_id d \<noteq> card_id c) (deck e),
                cardRing := filter (\<lambda>d. card_id d \<noteq> card_id c) (deck e),
                currentCardMesh := False, state := READY,
                sessionDrawnCount := sessionDrawnCount e + 1,
                history := \<lparr>h_isReversed = coin i, timestamp = now j, cardData = c\<rparr> # history e\<rparr>"
    and "drawAndConfirm i j e
           = (tryGrab i e)\<lparr>sessionDrawnCount := sessionDrawnCount e + 1, state := CONFIRMED,
                 history := \<lparr>h_isReversed = coin i, timestamp = now j, cardData = c\<rparr> # history e\<rparr>"
proof -
  have p: "afterEnter PINCH i e = tryGrab i e" using r by (simp add: afterEnter_def onGestureEnter_def)
  show dc: "drawAndConfirm i j e
           = (tryGrab i e)\<lparr>sessionDrawnCount := sessionDrawnCount e + 1, state := CONFIRMED,
                 history := \<lparr>h_isReversed = coin i, timestamp = now j, cardData = c\<rparr> # history e\<rparr>"
    unfolding drawAndConfirm_def p by (simp add: afterEnter_def grab_then_confirm[OF inv lt h])
  show "dismiss k (drawAndConfirm i j e)
           = e\<lparr>activeCardData := Some c, isReversed := coin i,
                deck := filter (\<lambda>d. card_id d \<noteq> card_id c) (deck e),
                cardRing := filter (\<lambda>d. card_id d \<noteq> card_id c) (deck e),
                currentCardMesh := False, state := READY,
                sessionDrawnCount := sessionDrawnCount e + 1,
                history := \<lparr>h_isReversed = coin i, timestamp = now j, cardData = c\<rparr> # history e\<rparr>"
    unfolding dc
    by (simp add: dismiss_def afterEnter_def onGestureEnter_def triggerDisintegrate_def
        disintegrateTimeout_def setState_def tryGrab_hit[OF lt h(1)])
qed

lemma cycle_deckInv:
  assumes "deckInv e" "state e = READY" "sessionDrawnCount e < MAX_DRAW_PER_SESSION"
    "hit i = Some c" "c \<in> set (cardRing e)"
  shows "deckInv (dismiss k (drawAndConfirm i j e))"
proof -
  have ring: "hitOnRing i e" using assms(4,5) by (simp add: hitOnRing_def)
  have "deckInv (tryGrab i e)" using assms(1) ring by (rule deckInv_tryGrab)
  then have "deckInv (updateCardTransform True (tryGrab i e))" by (rule deckInv_simple)
  moreover have "hitOnRing j' e'" if "hit j' = None" for j' e' using that by (simp add: hitOnRing_def)
  have g: "state (tryGrab i e) = GRABBING" "currentCardMesh (tryGrab i e)"
    by (simp_all add: tryGrab_hit[OF assms(3,4)])
  have u: "updateCardTransform True (tryGrab i e) = (tryGrab i e)\<lparr>state := PREVIEW\<rparr>"
    using g by (simp add: updateCardTransform_def setState_def)
  have "state (updateCardTransform True (tryGrab i e)) = PREVIEW" unfolding u by simp
  with \<open>deckInv (updateCardTransform True (tryGrab i e))\<close>
  obtain e2 where e2: "confirmCard j (updateCardTransform True (tryGrab i e)) = Done e2" "deckInv e2"
    using deckInv_confirmCard[of "updateCardTransform True (tryGrab i e)" j] by blast
  have d: "drawAndConfirm i j e = e2"
    using assms(2) e2(1) \<open>state (updateCardTransform True (tryGrab i e)) = PREVIEW\<close>
    by (simp add: drawAndConfirm_def afterEnter_def onGestureEnter_def)
  have "deckInv (triggerDisintegrate e2)" using e2(2) by (rule deckInv_simple)
  moreover have "state e2 = CONFIRMED"
    using cycle_summary(2)[OF assms, of j] d by simp
  ultimately have "deckInv (afterEnter FIST k e2)"
    by (simp add: afterEnter_def onGestureEnter_def)
  then show ?thesis unfolding d dismiss_def by (rule deckInv_simple)
qed

lemma draws_summary:
  assumes "deckInv e" "state e = READY"
    "sessionDrawnCount e + length cycles \<le> MAX_DRAW_PER_SESSION" "hitsOnRing cycles e"
  shows "sessionDrawnCount (draws cycles e) = sessionDrawnCount e + length cycles
         \<and> length (deck (draws cycles e)) + length cycles = length (deck e)
         \<and> map (\<lambda>h. Some (cardData h)) (history (draws cycles e))
             = rev (map (\<lambda>(i, j, k). hit i) cycles) @ map (\<lambda>h. Some (cardData h)) (history e)
         \<and> state (draws cycles e) = READY \<and> deckInv (draws cycles e)"
  using assms
proof (induction cycles arbitrary: e)
  case Nil
  then show ?case by simp
next
  case (Cons cyc cycles)
  obtain i j k where cyc: "cyc = (i, j, k)" by (cases cyc)
  from Cons.prems(4) cyc obtain c where h: "hit i = Some c" "c \<in> set (cardRing e)"
    and rest: "hitsOnRing cycles (dismiss k (drawAndConfirm i j e))"
    by (auto simp: hitOnRing_def)
  have lt: "sessionDrawnCount e < MAX_DRAW_PER_SESSION" using Cons.prems(3) by simp
  let ?e' = "dismiss k (drawAndConfirm i j e)"
  note s = cycle_summary(1)[OF Cons.prems(1,2) lt h, of k j]
  have inv': "deckInv ?e'" using Cons.prems(1,2) lt h by (rule cycle_deckInv)
  have st': "state ?e' = READY" and n': "sessionDrawnCount ?e' = sessionDrawnCount e + 1"
    and hist': "history ?e' = \<lparr>h_isReversed = coin i, timestamp = now j, cardData = c\<rparr> # history e"
    and deck': "deck ?e' = filter (\<lambda>d. card_id d \<noteq> card_id c) (deck e)"
    by (simp_all add: s)
  have mem: "c \<in> set (deck e)" using Cons.prems(1) h(2) by (simp add: deckInv_def)
  have dist: "distinct (map card_id (deck e))"
    using Cons.prems(1) by (simp add: deckInv_def deckIds_def)
  have len': "length (deck ?e') + 1 = length (deck e)"
    unfolding deck' using dist mem by (rule filter_by_id(2))
  have q: "sessionDrawnCount ?e' + length cycles \<le> MAX_DRAW_PER_SESSION"
    using Cons.prems(3) n' by simp
  from Cons.IH[OF inv' st' q rest] show ?case
    using n' hist' len' h(1) by (simp add: cyc)
qed

lemma init_ready:
  "deckInv (init rs)" "state (init rs) = READY" "sessionDrawnCount (init rs) = 0"
  "history (init rs) = []" "length (deck (init rs)) = 31" "cardRing (init rs) = deck (init rs)"
  "set (deck (init rs)) = set TAROT_DECK"
proof -
  show "deckInv (init rs)" by (rule deckInv_init)
qed (simp_all add: init_session init_def newEngine_def setState_def createCardRing_def
    shuffled_deck)

lemma three_draws:
  assumes "length cycles = 3" "hitsOnRing cycles (init rs)"
  shows "sessionDrawnCount (draws cycles (init rs)) = 3"
    and "length (history (draws cycles (init rs))) = 3"
    and "map (\<lambda>h. Some (cardData h)) (history (draws cycles (init rs)))
           = rev (map (\<lambda>(i, j, k). hit i) cycles)"
    and "length (deck (draws cycles (init rs))) = 28"
    and "state (draws cycles (init rs)) = READY"
proof -
  have q: "sessionDrawnCount (init rs) + length cycles \<le> MAX_DRAW_PER_SESSION"
    using assms(1) by (simp add: init_ready MAX_DRAW_PER_SESSION_def)
  note s = draws_summary[OF init_ready(1,2) q assms(2)]
  show "sessionDrawnCount (draws cycles (init rs)) = 3" using s assms(1) by (simp add: init_ready)
  show m: "map (\<lambda>h. Some (cardData h)) (history (draws cycles (init rs)))
           = rev (map (\<lambda>(i, j, k). hit i) cycles)" using s by (simp add: init_ready)
  have "length (map (\<lambda>h. Some (cardData h)) (history (draws cycles (init rs)))) = 3"
    unfolding m using assms(1) by simp
  then show "length (history (draws cycles (init rs))) = 3" by simp
  show "length (deck (draws cycles (init rs))) = 28" using s assms(1) by (simp add: init_ready)
  show "state (draws cycles (init rs)) = READY" using s by simp
qed

lemma fist_resets:
  assumes "state e = READY" "sessionDrawnCount e \<ge> MAX_DRAW_PER_SESSION"
  shows "afterEnter FIST k e = resetDeck k e"
  using assms by (simp add: afterEnter_def onGestureEnter_def)

lemma resetDeck_fields:
  "length (deck (resetDeck k e)) = 31" "history (resetDeck k e) = []"
  "sessionDrawnCount (resetDeck k e) = 0" "state (resetDeck k e) = READY"
  by (simp_all add: resetDeck_def setState_def createCardRing_def shuffled_deck Let_def)

text \<open>
  Claim C8, amended: the full deck has 31 cards. From the initialised engine, whatever the
  shuffle, three draws in sequence (each a PINCH enter that hits a card of the ring as it
  is then, confirmed by a FIST enter and dismissed) give drawn count 3, a history of the
  three cards drawn, most recent first, a deck of 28 and state READY; a FIST enter then
  resets: deck of 31, empty history, drawn count 0.
\<close>

theorem C8_three_draws_then_reset:
  assumes "length cycles = 3" "hitsOnRing cycles (init rs)"
  shows "length (deck (init rs)) = 31
     \<and> sessionDrawnCount (draws cycles (init rs)) = 3
     \<and> length (history (draws cycles (init rs))) = 3
     \<and> map (\<lambda>h. Some (cardData h)) (history (draws cycles (init rs)))
          = rev (map (\<lambda>(i, j, k). hit i) cycles)
     \<and> length (deck (draws cycles (init rs))) = 28
     \<and> state (draws cycles (init rs)) = READY
     \<and> length (deck (afterEnter FIST k (draws cycles (init rs)))) = 31
     \<and> history (afterEnter FIST k (draws cycles (init rs))) = []
     \<and> sessionDrawnCount (afterEnter FIST k (draws cycles (init rs))) = 0"
proof -
  note t = three_draws[OF assms]
  have "afterEnter FIST k (draws cycles (init rs)) = resetDeck k (draws cycles (init rs))"
    using t(5) t(1) by (intro fist_resets) (simp_all add: MAX_DRAW_PER_SESSION_def)
  then show ?thesis using t by (simp add: resetDeck_fields init_ready)
qed

lemma demo_hits: "hitsOnRing demoCycles (init [])"
proof -
  let ?c1 = "mkCard 0 ''The Fool''" and ?c2 = "mkCard 13 ''Death''"
    and ?c3 = "mkCard 77 ''Page of Pentacles''"
  let ?i1 = "grabAt 1000 ?c1 False" and ?i2 = "grabAt 6000 ?c2 True"
    and ?i3 = "grabAt 11000 ?c3 False"
  let ?e0 = "init []"
  let ?e1 = "dismiss (atTime 3000) (drawAndConfirm ?i1 (atTime 2000) ?e0)"
  let ?e2 = "dismiss (atTime 8000) (drawAndConfirm ?i2 (atTime 7000) ?e1)"
  have mem: "?c1 \<in> set TAROT_DECK" "?c2 \<in> set TAROT_DECK" "?c3 \<in> set TAROT_DECK"
    by (simp_all add: TAROT_DECK_def)
  have hits: "hit ?i1 = Some ?c1" "hit ?i2 = Some ?c2" "hit ?i3 = Some ?c3"
    by (simp_all add: grabAt_def)
  have r0: "?c1 \<in> set (cardRing ?e0)" using mem by (simp add: init_ready)
  have lt0: "sessionDrawnCount ?e0 < MAX_DRAW_PER_SESSION"
    by (simp add: init_ready MAX_DRAW_PER_SESSION_def)
  note s1 = cycle_summary(1)[OF init_ready(1,2) lt0 hits(1) r0, of "atTime 3000" "atTime 2000"]
  have i1: "deckInv ?e1" using init_ready(1,2) lt0 hits(1) r0 by (rule cycle_deckInv)
  have f1: "state ?e1 = READY" "sessionDrawnCount ?e1 = 1"
    "cardRing ?e1 = filter (\<lambda>d. card_id d \<noteq> card_id ?c1) (deck ?e0)"
    by (simp_all add: s1 init_ready)
  have r1: "?c2 \<in> set (cardRing ?e1)"
    unfolding f1(3) using mem by (simp add: init_ready mkCard_def)
  have lt1: "sessionDrawnCount ?e1 < MAX_DRAW_PER_SESSION"
    by (simp add: f1 MAX_DRAW_PER_SESSION_def)
  note s2 = cycle_summary(1)[OF i1 f1(1) lt1 hits(2) r1, of "atTime 8000" "atTime 7000"]
  have d1: "deck ?e1 = cardRing ?e1" using i1 by (simp add: deckInv_def)
  have f2: "cardRing ?e2 = filter (\<lambda>d. card_id d \<noteq> card_id ?c2) (cardRing ?e1)"
    by (simp add: s2 d1)
  have r2: "?c3 \<in> set (cardRing ?e2)"
    unfolding f2 f1(3) using mem by (simp add: init_ready mkCard_def)
  show ?thesis
    using r0 r1 r2 by (simp add: demoCycles_def hitOnRing_def hits)
qed

text \<open>The Fool, Death and the Page of Pentacles drawn in that order.\<close>

theorem C8_three_draws_then_reset_witness:
  "length demoCycles = 3 \<and> hitsOnRing demoCycles (init [])
   \<and> sessionDrawnCount (draws demoCycles (init [])) = 3
   \<and> map (\<lambda>h. card_id (cardData h)) (history (draws demoCycles (init []))) = [77, 13, 0]
   \<and> length (deck (draws demoCycles (init []))) = 28
   \<and> length (deck (afterEnter FIST (atTime 20000) (draws demoCycles (init [])))) = 31
   \<and> history (afterEnter FIST (atTime 20000) (draws demoCycles (init []))) = []
   \<and> sessionDrawnCount (afterEnter FIST (atTime 20000) (draws demoCycles (init []))) = 0"
proof -
  have len: "length demoCycles = 3" by (simp add: demoCycles_def)
  note t = C8_three_draws_then_reset [OF len demo_hits, of "atTime 20000"]
  have "map (\<lambda>h. Some (cardData h)) (history (draws demoCycles (init [])))
          = [Some (mkCard 77 ''Page of Pentacles''), Some (mkCard 13 ''Death''),
             Some (mkCard 0 ''The Fool'')]"
    using t by (simp add: demoCycles_def grabAt_def)
  then have "map (\<lambda>h. card_id (cardData h)) (history (draws demoCycles (init []))) = [77, 13, 0]"
    by (auto simp: mkCard_def map_eq_Cons_conv)
  then show ?thesis using t len demo_hits by simp
qed

text \<open>
  Claim C8, as stated, has a full deck of 32 cards, 29 left after three draws and 32 after
  the reset. \<^verbatim>\<open>TAROT_DECK\<close> lists 31 cards, so the three numbers are 31, 28 and 31.
\<close>

theorem C8_deck_of_32_counterexample:
  "length (deck (init [])) \<noteq> 32
   \<and> length (deck (draws demoCycles (init []))) \<noteq> 29
   \<and> length (deck (afterEnter FIST (atTime 20000) (draws demoCycles (init [])))) \<noteq> 32"
proof -
  have len: "length demoCycles = 3" by (simp add: demoCycles_def)
  note t = three_draws[OF len demo_hits]
  have "afterEnter FIST (atTime 20000) (draws demoCycles (init []))
          = resetDeck (atTime 20000) (draws demoCycles (init []))"
    using t(5) t(1) by (intro fist_resets) (simp_all add: MAX_DRAW_PER_SESSION_def)
  then show ?thesis using t by (simp add: resetDeck_fields init_ready)
qed

text \<open>
  Claim C1: in every run of events from the initialised engine the drawn count is at most
  3 (and, a natural number, at least 0); an event either leaves it at least as large as
  it was or leaves the engine as a reset does (count 0, empty history, the whole deck on
  the ring, state READY); \<^verbatim>\<open>resetDeck\<close> sets it to 0; and with the count at 3 or more a
  grab attempt changes nothing, whether \<^verbatim>\<open>tryGrab\<close> is called directly or by a PINCH
  enter.
\<close>

theorem C1_drawn_count_bounded:
  "sessionDrawnCount (run evs (init rs)) \<le> 3
   \<and> (sessionDrawnCount (run evs (init rs)) \<le> sessionDrawnCount (fst (step ev (run evs (init rs))))
        \<or> freshSession (fst (step ev (run evs (init rs)))))
   \<and> sessionDrawnCount (resetDeck i e) = 0
   \<and> (3 \<le> sessionDrawnCount e \<longrightarrow> tryGrab i e = e \<and> onGestureEnter PINCH i e = Done e)"
proof -
  have inv: "sessionInv (run evs (init rs))" using sessionInv_init by (rule sessionInv_run)
  then have "sessionDrawnCount (run evs (init rs)) \<le> 3"
    by (simp add: sessionInv_def MAX_DRAW_PER_SESSION_def)
  moreover have "tryGrab i e = e \<and> onGestureEnter PINCH i e = Done e" if "3 \<le> sessionDrawnCount e"
    using that by (simp add: tryGrab_def onGestureEnter_def MAX_DRAW_PER_SESSION_def)
  ultimately show ?thesis using step_summary[OF inv, of ev] resetDeck_session(3) by blast
qed

text \<open>After three draws a further grab attempt changes nothing.\<close>

theorem C1_drawn_count_bounded_witness:
  "3 \<le> sessionDrawnCount (draws demoCycles (init []))
   \<and> tryGrab (grabAt 30000 (mkCard 1 ''The Magician'') True) (draws demoCycles (init []))
       = draws demoCycles (init [])
   \<and> onGestureEnter PINCH (grabAt 30000 (mkCard 1 ''The Magician'') True) (draws demoCycles (init []))
       = Done (draws demoCycles (init []))"
proof -
  have len: "length demoCycles = 3" by (simp add: demoCycles_def)
  have three: "3 \<le> sessionDrawnCount (draws demoCycles (init []))"
    using three_draws(1)[OF len demo_hits] by simp
  show ?thesis
    using C1_drawn_count_bounded [of "[]" "[]" DisintegrateTimeout
        "grabAt 30000 (mkCard 1 ''The Magician'') True" "draws demoCycles (init [])"] three
    by blast
qed

text \<open>The Fool drawn and confirmed from the freshly initialised engine.\<close>

theorem C6_draw_removes_card_witness:
  "reachable (init []) \<and> sessionDrawnCount (init []) < 3
   \<and> hit (grabAt 1000 (mkCard 0 ''The Fool'') False) = Some (mkCard 0 ''The Fool'')
   \<and> mkCard 0 ''The Fool'' \<in> set (cardRing (init []))
   \<and> mkCard 0 ''The Fool'' \<notin> set (deck (tryGrab (grabAt 1000 (mkCard 0 ''The Fool'') False) (init [])))
   \<and> length (deck (tryGrab (grabAt 1000 (mkCard 0 ''The Fool'') False) (init []))) = 30
   \<and> history (afterEnter FIST (atTime 2000) (updateCardTransform True
         (tryGrab (grabAt 1000 (mkCard 0 ''The Fool'') False) (init []))))
       = [\<lparr>h_isReversed = False, timestamp = 2000, cardData = mkCard 0 ''The Fool''\<rparr>]"
proof -
  have a: "reachable (init [])" by (rule reachable.initial)
  have b: "sessionDrawnCount (init []) < 3" by (simp add: init_ready)
  have c: "hit (grabAt 1000 (mkCard 0 ''The Fool'') False) = Some (mkCard 0 ''The Fool'')"
    by (simp add: grabAt_def)
  have d: "mkCard 0 ''The Fool'' \<in> set (cardRing (init []))"
    by (simp add: init_ready TAROT_DECK_def)
  note t = C6_draw_removes_card [OF a b c d, of "atTime 2000"]
  have n: "mkCard 0 ''The Fool''
             \<notin> set (deck (tryGrab (grabAt 1000 (mkCard 0 ''The Fool'') False) (init [])))"
    using t by blast
  have "length (deck (tryGrab (grabAt 1000 (mkCard 0 ''The Fool'') False) (init []))) + 1
          = length (deck (init []))"
    using t by blast
  then have l: "length (deck (tryGrab (grabAt 1000 (mkCard 0 ''The Fool'') False) (init []))) = 30"
    by (simp add: init_ready)
  have "history (afterEnter FIST (atTime 2000) (updateCardTransform True
         (tryGrab (grabAt 1000 (mkCard 0 ''The Fool'') False) (init []))))
       = \<lparr>h_isReversed = coin (grabAt 1000 (mkCard 0 ''The Fool'') False),
           timestamp = now (atTime 2000), cardData = mkCard 0 ''The Fool''\<rparr> # history (init [])"
    using t by blast
  then have h: "history (afterEnter FIST (atTime 2000) (updateCardTransform True
         (tryGrab (grabAt 1000 (mkCard 0 ''The Fool'') False) (init []))))
       = [\<lparr>h_isReversed = False, timestamp = 2000, cardData = mkCard 0 ''The Fool''\<rparr>]"
    by (simp add: init_ready grabAt_def atTime_def)
  show ?thesis by (intro conjI a b c d n l h)
qed

end
